theory Spec2Isabelle
  imports Main
begin

section \<open>The workflow definition (input)\<close>

text \<open>
  The layout engine is the function \<^verbatim>\<open>parseStateMachine\<close> of the state-machine parser
  module. Its input is an Amazon States Language document. The fields the function reads
  are modelled with the types the language gives them; a field that may be absent is an
  \<open>option\<close>. Objects are association lists of their own properties.

  The label of a choice edge is computed by \<^verbatim>\<open>getChoiceLabel(choice)\<close>, a function of the
  rule alone that renders numbers as text; the rule carries its value as \<open>choiceLabel\<close>.
\<close>

datatype CatchBlock = CatchBlock (catch_Next: "string option")

datatype ChoiceRule = ChoiceRule (choice_Next: "string option") (choiceLabel: string)

datatype StateSpec = StateSpec
  (Type: "string option") (Next: "string option") (End: bool)
  (Catch: "CatchBlock list option") (Choices: "ChoiceRule list option")
  (Default: "string option") (Branches: "Definition list option")
and Definition = Definition (StartAt: "string option") (States: "(string \<times> StateSpec) list")

text \<open>
  What the caller hands over: \<^verbatim>\<open>undefined\<close>, \<^verbatim>\<open>null\<close>, a string, a definition object, or
  any other value (a number, a boolean, an array), none of which has a \<^verbatim>\<open>States\<close> or a
  \<^verbatim>\<open>StartAt\<close> property.
\<close>

datatype jsinput = Undefined | Null | Text string | Object Definition | Other

datatype error = TypeError

text \<open>JavaScript truthiness of an optional string: \<^verbatim>\<open>undefined\<close> and \<^verbatim>\<open>""\<close> are falsy.\<close>

definition truthy :: "string option \<Rightarrow> bool" where
  "truthy s = (case s of None \<Rightarrow> False | Some v \<Rightarrow> v \<noteq> [])"

text \<open>
  \<^verbatim>\<open>states[name]\<close> is a property read on an ordinary object: it finds the object's own
  property first and otherwise what the object inherits from \<^verbatim>\<open>Object.prototype\<close>. An
  inherited value is a function (or the prototype object itself); it is truthy and has
  none of the properties the engine reads, so it behaves as a state with every field absent.
\<close>

definition inheritedKeys :: "string list" where
  "inheritedKeys = [''constructor'', ''hasOwnProperty'', ''isPrototypeOf'',
     ''propertyIsEnumerable'', ''toLocaleString'', ''toString'', ''valueOf'', ''__proto__'',
     ''__defineGetter__'', ''__defineSetter__'', ''__lookupGetter__'', ''__lookupSetter__'']"

definition inheritedValue :: StateSpec where
  "inheritedValue = StateSpec None None False None None None None"

definition getProp :: "(string \<times> StateSpec) list \<Rightarrow> string \<Rightarrow> StateSpec option" where
  "getProp states name =
     (case map_of states name of
        Some s \<Rightarrow> Some s
      | None \<Rightarrow> if name \<in> set inheritedKeys then Some inheritedValue else None)"

section \<open>The layout graph (output) and the working state\<close>

text \<open>
  A value stored in the \<^verbatim>\<open>nodePositions\<close> map is either a position object \<^verbatim>\<open>{x, y}\<close> or,
  under a key ending in \<^verbatim>\<open>_end\<close>, the id of a branch's last node. The source of a rejoin
  edge is read back from that map, so an edge source has the same type.
\<close>

datatype jsval = JString string | JPoint int int

fun js_truthy :: "jsval \<Rightarrow> bool" where
  "js_truthy (JString s) = (s \<noteq> [])"
| "js_truthy (JPoint x y) = True"

fun to_string :: "jsval \<Rightarrow> string" where
  "to_string (JString s) = s"
| "to_string (JPoint x y) = ''[object Object]''"

record node =
  node_id :: string
  pos_x :: int
  pos_y :: int
  label :: string
  ntype :: "string option"
  state :: "StateSpec option"
  hasCatch :: bool
  isBranch :: bool

record edge =
  edge_id :: string
  source :: jsval
  target :: string
  edge_label :: "string option"
  sourceHandle :: "string option"
  targetHandle :: "string option"
  animated :: bool
  stroke :: string
  strokeDasharray :: "string option"

record LayoutGraph =
  nodes :: "node list"
  edges :: "edge list"

record lstate = LayoutGraph +
  nodePositions :: "string \<rightharpoonup> jsval"
  processedStates :: "string set"

definition HORIZONTAL_SPACING :: int where "HORIZONTAL_SPACING = 240"
definition VERTICAL_SPACING :: int where "VERTICAL_SPACING = 100"
definition PARALLEL_BRANCH_SPACING :: int where "PARALLEL_BRANCH_SPACING = 200"

text \<open>Decimal rendering of an array index inside a template string.\<close>

fun string_of_nat :: "nat \<Rightarrow> string" where
  "string_of_nat n = (if n < 10 then [''0123456789'' ! n]
     else string_of_nat (n div 10) @ [''0123456789'' ! (n mod 10)])"

declare string_of_nat.simps [simp del]

definition push_node :: "node \<Rightarrow> lstate \<Rightarrow> lstate" where
  "push_node n st = st\<lparr>nodes := nodes st @ [n]\<rparr>"

definition push_edge :: "edge \<Rightarrow> lstate \<Rightarrow> lstate" where
  "push_edge e st = st\<lparr>edges := edges st @ [e]\<rparr>"

definition set_position :: "string \<Rightarrow> jsval \<Rightarrow> lstate \<Rightarrow> lstate" where
  "set_position k v st = st\<lparr>nodePositions := (nodePositions st)(k \<mapsto> v)\<rparr>"

definition add_processed :: "string \<Rightarrow> lstate \<Rightarrow> lstate" where
  "add_processed k st = st\<lparr>processedStates := insert k (processedStates st)\<rparr>"

subsection \<open>The nodes the engine creates\<close>

definition startNode :: "int \<Rightarrow> node" where
  "startNode currentY = \<lparr>node_id = ''__START__'', pos_x = 0, pos_y = currentY,
     label = ''Start'', ntype = Some ''Start'', state = None, hasCatch = False,
     isBranch = False\<rparr>"

definition stateNode :: "string \<Rightarrow> int \<Rightarrow> int \<Rightarrow> StateSpec \<Rightarrow> node" where
  "stateNode stateName x y s = \<lparr>node_id = stateName, pos_x = x, pos_y = y,
     label = stateName, ntype = Type s, state = Some s,
     hasCatch = (case Catch s of None \<Rightarrow> False | Some cs \<Rightarrow> 0 < length cs),
     isBranch = False\<rparr>"

definition branchNode :: "string \<Rightarrow> string \<Rightarrow> int \<Rightarrow> int \<Rightarrow> StateSpec \<Rightarrow> node" where
  "branchNode nodeId name x y s = \<lparr>node_id = nodeId, pos_x = x, pos_y = y,
     label = name, ntype = Type s, state = Some s, hasCatch = False, isBranch = True\<rparr>"

definition failNode :: "string \<Rightarrow> int \<Rightarrow> int \<Rightarrow> StateSpec \<Rightarrow> node" where
  "failNode name failX failY s = \<lparr>node_id = name, pos_x = failX, pos_y = failY,
     label = name, ntype = Type s, state = Some s, hasCatch = False, isBranch = False\<rparr>"

definition endNode :: "string \<Rightarrow> int \<Rightarrow> int \<Rightarrow> node" where
  "endNode endNodeId x nextY = \<lparr>node_id = endNodeId, pos_x = x, pos_y = nextY,
     label = ''End'', ntype = Some ''End'', state = None, hasCatch = False,
     isBranch = False\<rparr>"

subsection \<open>The edges the engine creates\<close>

definition startEdge :: "string \<Rightarrow> edge" where
  "startEdge startAt = \<lparr>edge_id = ''__START__-'' @ startAt, source = JString ''__START__'',
     target = startAt, edge_label = None, sourceHandle = None, targetHandle = None,
     animated = True, stroke = ''#4ade80'', strokeDasharray = None\<rparr>"

definition branchEdge :: "string \<Rightarrow> string \<Rightarrow> edge" where
  "branchEdge stateName branchNodeId = \<lparr>edge_id = stateName @ ''-to-'' @ branchNodeId,
     source = JString stateName, target = branchNodeId, edge_label = None,
     sourceHandle = None, targetHandle = None, animated = False, stroke = ''#a78bfa'',
     strokeDasharray = None\<rparr>"

definition branchStepEdge :: "string \<Rightarrow> string \<Rightarrow> edge" where
  "branchStepEdge prevBranchNodeId nextBranchNodeId =
     \<lparr>edge_id = prevBranchNodeId @ ''-to-'' @ nextBranchNodeId,
      source = JString prevBranchNodeId, target = nextBranchNodeId, edge_label = None,
      sourceHandle = None, targetHandle = None, animated = False, stroke = ''#6b7280'',
      strokeDasharray = None\<rparr>"

definition rejoinEdge :: "jsval \<Rightarrow> string \<Rightarrow> edge" where
  "rejoinEdge lastBranchNode next =
     \<lparr>edge_id = to_string lastBranchNode @ ''-to-'' @ next,
      source = lastBranchNode, target = next, edge_label = None,
      sourceHandle = None, targetHandle = None, animated = False, stroke = ''#a78bfa'',
      strokeDasharray = None\<rparr>"

definition choiceEdge :: "string \<Rightarrow> nat \<Rightarrow> string \<Rightarrow> string \<Rightarrow> edge" where
  "choiceEdge stateName index next lbl =
     \<lparr>edge_id = stateName @ ''-choice-'' @ string_of_nat index @ ''-'' @ next,
      source = JString stateName, target = next, edge_label = Some lbl,
      sourceHandle = None, targetHandle = None, animated = False, stroke = ''#fbbf24'',
      strokeDasharray = None\<rparr>"

definition defaultEdge :: "string \<Rightarrow> string \<Rightarrow> edge" where
  "defaultEdge stateName dflt =
     \<lparr>edge_id = stateName @ ''-default-'' @ dflt,
      source = JString stateName, target = dflt, edge_label = Some ''default'',
      sourceHandle = None, targetHandle = None, animated = False, stroke = ''#6b7280'',
      strokeDasharray = Some ''6,4''\<rparr>"

definition catchEdge :: "string \<Rightarrow> nat \<Rightarrow> string \<Rightarrow> bool \<Rightarrow> edge" where
  "catchEdge stateName index next targetIsFail =
     \<lparr>edge_id = stateName @ ''-catch-'' @ string_of_nat index @ ''-'' @ next,
      source = JString stateName, target = next, edge_label = Some ''error'',
      sourceHandle = Some ''right'',
      targetHandle = Some (if targetIsFail then ''left'' else ''top''),
      animated = False, stroke = ''#f87171'', strokeDasharray = Some ''4,4''\<rparr>"

definition nextEdge :: "string \<Rightarrow> string \<Rightarrow> edge" where
  "nextEdge stateName next =
     \<lparr>edge_id = stateName @ ''-'' @ next,
      source = JString stateName, target = next, edge_label = None,
      sourceHandle = None, targetHandle = None, animated = False, stroke = ''#6b7280'',
      strokeDasharray = None\<rparr>"

definition endEdge :: "string \<Rightarrow> string \<Rightarrow> edge" where
  "endEdge stateName endNodeId =
     \<lparr>edge_id = stateName @ ''-'' @ endNodeId,
      source = JString stateName, target = endNodeId, edge_label = None,
      sourceHandle = None, targetHandle = None, animated = False, stroke = ''#f87171'',
      strokeDasharray = None\<rparr>"

section \<open>Parallel branches\<close>

definition branchId :: "string \<Rightarrow> nat \<Rightarrow> string \<Rightarrow> string" where
  "branchId stateName index name = stateName @ ''_branch_'' @ string_of_nat index @ ''_'' @ name"

text \<open>
  The \<^verbatim>\<open>while (currentBranchState && currentBranchState.Next)\<close> loop that walks a branch
  along its \<^verbatim>\<open>Next\<close> chain. It keeps no record of the states it has seen, so it need not
  end: the result \<open>None\<close> stands for a loop that never returns.
\<close>

partial_function (option) walkBranch ::
  "(string \<times> StateSpec) list \<Rightarrow> string \<Rightarrow> nat \<Rightarrow> int \<Rightarrow> StateSpec \<Rightarrow> string \<Rightarrow> int \<Rightarrow> lstate
     \<Rightarrow> (string \<times> int \<times> lstate) option" where
  "walkBranch branchStates stateName index branchX currentBranchState prevBranchNodeId branchY st =
     (if truthy (Next currentBranchState) then
        (case getProp branchStates (the (Next currentBranchState)) of
           Some nextState \<Rightarrow>
             walkBranch branchStates stateName index branchX nextState
               (branchId stateName index (the (Next currentBranchState)))
               (branchY + VERTICAL_SPACING)
               (set_position (branchId stateName index (the (Next currentBranchState)))
                  (JPoint branchX branchY)
                  (push_edge (branchStepEdge prevBranchNodeId
                       (branchId stateName index (the (Next currentBranchState))))
                     (push_node (branchNode
                          (branchId stateName index (the (Next currentBranchState)))
                          (the (Next currentBranchState)) branchX branchY nextState) st)))
         | None \<Rightarrow> Some (prevBranchNodeId, branchY, st))
      else Some (prevBranchNodeId, branchY, st))"

declare walkBranch.simps [code]

text \<open>The body of \<^verbatim>\<open>state.Branches.forEach((branch, index) => ...)\<close> for one branch.\<close>

definition processBranch ::
  "string \<Rightarrow> int \<Rightarrow> int \<Rightarrow> nat \<Rightarrow> Definition \<Rightarrow> int \<times> lstate \<Rightarrow> (int \<times> lstate) option" where
  "processBranch stateName startX nextY index branch acc =
     (case acc of (maxBranchY, st) \<Rightarrow>
        if truthy (StartAt branch) \<and> getProp (States branch) (the (StartAt branch)) \<noteq> None
        then
          (case walkBranch (States branch) stateName index
                  (startX + int index * PARALLEL_BRANCH_SPACING)
                  (the (getProp (States branch) (the (StartAt branch))))
                  (branchId stateName index (the (StartAt branch)))
                  (nextY + VERTICAL_SPACING)
                  (set_position (branchId stateName index (the (StartAt branch)))
                     (JPoint (startX + int index * PARALLEL_BRANCH_SPACING) nextY)
                     (push_edge (branchEdge stateName
                          (branchId stateName index (the (StartAt branch))))
                        (push_node (branchNode
                             (branchId stateName index (the (StartAt branch)))
                             (the (StartAt branch))
                             (startX + int index * PARALLEL_BRANCH_SPACING) nextY
                             (the (getProp (States branch) (the (StartAt branch))))) st)))
           of None \<Rightarrow> None
            | Some (prevBranchNodeId, branchY, st') \<Rightarrow>
                Some (max maxBranchY branchY,
                      set_position (stateName @ ''_branch_'' @ string_of_nat index @ ''_end'')
                        (JString prevBranchNodeId) st'))
        else Some (maxBranchY, st))"

fun processBranches ::
  "string \<Rightarrow> int \<Rightarrow> int \<Rightarrow> nat \<Rightarrow> Definition list \<Rightarrow> int \<times> lstate \<Rightarrow> (int \<times> lstate) option" where
  "processBranches stateName startX nextY index [] acc = Some acc"
| "processBranches stateName startX nextY index (branch # rest) acc =
     (case processBranch stateName startX nextY index branch acc of
        None \<Rightarrow> None
      | Some acc' \<Rightarrow> processBranches stateName startX nextY (Suc index) rest acc')"

text \<open>The second \<^verbatim>\<open>forEach\<close> over the branches: the edges to the state after the Parallel.\<close>

fun connectBranchEnds :: "string \<Rightarrow> string \<Rightarrow> nat \<Rightarrow> Definition list \<Rightarrow> lstate \<Rightarrow> lstate" where
  "connectBranchEnds stateName next index [] st = st"
| "connectBranchEnds stateName next index (branch # rest) st =
     connectBranchEnds stateName next (Suc index) rest
       (case nodePositions st (stateName @ ''_branch_'' @ string_of_nat index @ ''_end'') of
          None \<Rightarrow> st
        | Some lastBranchNode \<Rightarrow>
            if js_truthy lastBranchNode then push_edge (rejoinEdge lastBranchNode next) st
            else st)"

section \<open>Catch rules of a regular state\<close>

text \<open>The body of \<^verbatim>\<open>state.Catch.forEach((catchBlock, index) => ...)\<close> for one rule.\<close>

definition catchStep ::
  "(string \<times> StateSpec) list \<Rightarrow> string \<Rightarrow> int \<Rightarrow> int \<Rightarrow> nat \<Rightarrow> CatchBlock \<Rightarrow> lstate \<Rightarrow> lstate" where
  "catchStep states stateName x y index catchBlock st =
     (if truthy (catch_Next catchBlock) then
        (let next = the (catch_Next catchBlock);
             targetState = getProp states next;
             targetIsFail = (case targetState of None \<Rightarrow> False
                             | Some t \<Rightarrow> Type t = Some ''Fail'');
             st1 = push_edge (catchEdge stateName index next targetIsFail) st
         in if targetIsFail \<and> next \<notin> processedStates st1 then
              set_position next (JPoint (x + HORIZONTAL_SPACING) y)
                (push_node (failNode next (x + HORIZONTAL_SPACING) y (the targetState))
                   (add_processed next st1))
            else st1)
      else st)"

fun processCatch ::
  "(string \<times> StateSpec) list \<Rightarrow> string \<Rightarrow> int \<Rightarrow> int \<Rightarrow> nat \<Rightarrow> CatchBlock list \<Rightarrow> lstate \<Rightarrow> lstate" where
  "processCatch states stateName x y index [] st = st"
| "processCatch states stateName x y index (catchBlock # rest) st =
     processCatch states stateName x y (Suc index) rest
       (catchStep states stateName x y index catchBlock st)"

section \<open>The recursive traversal\<close>

text \<open>
  The first statements of \<^verbatim>\<open>processState\<close> once the state is known to be new: mark it
  processed, create its node, record its position.
\<close>

definition visitState :: "string \<Rightarrow> int \<Rightarrow> int \<Rightarrow> StateSpec \<Rightarrow> lstate \<Rightarrow> lstate" where
  "visitState stateName x y s st =
     set_position stateName (JPoint x y)
       (push_node (stateNode stateName x y s) (add_processed stateName st))"

definition parallelStartX :: "int \<Rightarrow> Definition list \<Rightarrow> int" where
  "parallelStartX x branches = x - ((int (length branches) - 1) * PARALLEL_BRANCH_SPACING) div 2"

definition choiceStartX :: "int \<Rightarrow> StateSpec \<Rightarrow> int" where
  "choiceStartX x s =
     x - ((int (length (the (Choices s))) + (if truthy (Default s) then 1 else 0) - 1)
            * HORIZONTAL_SPACING) div 2"

definition catchPhase ::
  "(string \<times> StateSpec) list \<Rightarrow> string \<Rightarrow> int \<Rightarrow> int \<Rightarrow> StateSpec \<Rightarrow> lstate \<Rightarrow> lstate" where
  "catchPhase states stateName x y s st =
     (case Catch s of None \<Rightarrow> st | Some cs \<Rightarrow> processCatch states stateName x y 0 cs st)"

text \<open>The \<^verbatim>\<open>if (state.End)\<close> block that closes the handling of a regular state.\<close>

definition finishState :: "string \<Rightarrow> int \<Rightarrow> StateSpec \<Rightarrow> int \<times> lstate \<Rightarrow> int \<times> lstate" where
  "finishState stateName x s r =
     (case r of (nextY, st) \<Rightarrow>
        if End s then
          (nextY + VERTICAL_SPACING,
           push_edge (endEdge stateName (''__END_'' @ stateName @ ''__''))
             (push_node (endNode (''__END_'' @ stateName @ ''__'') x nextY) st))
        else (nextY, st))"

text \<open>
  \<^verbatim>\<open>processState(stateName, x, y)\<close> returns the next free y coordinate and updates the
  working state. \<open>processChoices\<close> is the \<^verbatim>\<open>state.Choices.forEach\<close> loop, which calls
  \<^verbatim>\<open>processState\<close> from its body; its accumulator holds \<^verbatim>\<open>choiceTargets\<close>,
  \<^verbatim>\<open>maxChoiceY\<close> and the working state.
\<close>

function processState ::
  "(string \<times> StateSpec) list \<Rightarrow> string \<Rightarrow> int \<Rightarrow> int \<Rightarrow> lstate \<Rightarrow> (int \<times> lstate) option"
and processChoices ::
  "(string \<times> StateSpec) list \<Rightarrow> string \<Rightarrow> int \<Rightarrow> int \<Rightarrow> nat \<Rightarrow> ChoiceRule list
     \<Rightarrow> string set \<times> int \<times> lstate \<Rightarrow> (string set \<times> int \<times> lstate) option"
where
  "processState states stateName x y st =
     (if stateName \<in> processedStates st \<or> getProp states stateName = None then Some (y, st)
      else
        let state = the (getProp states stateName);
            st1 = visitState stateName x y state st;
            nextY = y + VERTICAL_SPACING
        in
          if Type state = Some ''Parallel'' \<and> Branches state \<noteq> None then
            (case processBranches stateName (parallelStartX x (the (Branches state))) nextY 0
                    (the (Branches state)) (nextY, st1) of
               None \<Rightarrow> None
             | Some (maxBranchY, st2) \<Rightarrow>
                 if truthy (Next state) then
                   processState states (the (Next state)) x maxBranchY
                     (connectBranchEnds stateName (the (Next state)) 0 (the (Branches state)) st2)
                 else Some (maxBranchY, st2))
          else if Type state = Some ''Choice'' \<and> Choices state \<noteq> None then
            (case processChoices states stateName (choiceStartX x state) nextY 0
                    (the (Choices state)) ({}, nextY, st1) of
               None \<Rightarrow> None
             | Some (choiceTargets, maxChoiceY, st2) \<Rightarrow>
                 if truthy (Default state) \<and> the (Default state) \<notin> choiceTargets then
                   (if the (Default state) \<notin> processedStates st2 then
                      (case processState states (the (Default state))
                              (choiceStartX x state
                                 + int (length (the (Choices state))) * HORIZONTAL_SPACING)
                              nextY
                              (push_edge (defaultEdge stateName (the (Default state))) st2) of
                         None \<Rightarrow> None
                       | Some (defaultY, st4) \<Rightarrow> Some (max maxChoiceY defaultY, st4))
                    else Some (maxChoiceY,
                               push_edge (defaultEdge stateName (the (Default state))) st2))
                 else Some (maxChoiceY, st2))
          else
            (let st2 = catchPhase states stateName x y state st1
             in if truthy (Next state) then
                  (if the (Next state) \<notin> processedStates st2 then
                     (case processState states (the (Next state)) x nextY
                             (push_edge (nextEdge stateName (the (Next state))) st2) of
                        None \<Rightarrow> None
                      | Some r \<Rightarrow> Some (finishState stateName x state r))
                   else Some (finishState stateName x state
                                (nextY, push_edge (nextEdge stateName (the (Next state))) st2)))
                else Some (finishState stateName x state (nextY, st2))))"
| "processChoices states stateName startX nextY index [] acc = Some acc"
| "processChoices states stateName startX nextY index (choice # rest) acc =
     (case acc of (choiceTargets, maxChoiceY, st) \<Rightarrow>
        if truthy (choice_Next choice) \<and> the (choice_Next choice) \<notin> choiceTargets then
          (if the (choice_Next choice) \<notin> processedStates st then
             (case processState states (the (choice_Next choice))
                     (startX + int index * HORIZONTAL_SPACING) nextY
                     (push_edge (choiceEdge stateName index (the (choice_Next choice))
                                   (choiceLabel choice)) st) of
                None \<Rightarrow> None
              | Some (choiceY, st2) \<Rightarrow>
                  processChoices states stateName startX nextY (Suc index) rest
                    (insert (the (choice_Next choice)) choiceTargets,
                     max maxChoiceY choiceY, st2))
           else processChoices states stateName startX nextY (Suc index) rest
                  (insert (the (choice_Next choice)) choiceTargets, maxChoiceY,
                   push_edge (choiceEdge stateName index (the (choice_Next choice))
                                (choiceLabel choice)) st))
        else processChoices states stateName startX nextY (Suc index) rest acc)"
  by pat_completeness auto

text \<open>
  The executions of \<^verbatim>\<open>processState\<close> that return, one rule for each path through its
  body. Properties of the traversal are proved by induction over these rules.
\<close>

inductive run ::
  "(string \<times> StateSpec) list \<Rightarrow> string \<Rightarrow> int \<Rightarrow> int \<Rightarrow> lstate \<Rightarrow> int \<times> lstate \<Rightarrow> bool"
and runChoices ::
  "(string \<times> StateSpec) list \<Rightarrow> string \<Rightarrow> int \<Rightarrow> int \<Rightarrow> nat \<Rightarrow> ChoiceRule list
     \<Rightarrow> string set \<times> int \<times> lstate \<Rightarrow> string set \<times> int \<times> lstate \<Rightarrow> bool"
for S :: "(string \<times> StateSpec) list"
where
  skip:
    "stateName \<in> processedStates st \<or> getProp S stateName = None
     \<Longrightarrow> run S stateName x y st (y, st)"
| parallel_next:
    "\<lbrakk>stateName \<notin> processedStates st; getProp S stateName = Some s;
      Type s = Some ''Parallel''; Branches s = Some bs;
      processBranches stateName (parallelStartX x bs) (y + VERTICAL_SPACING) 0 bs
        (y + VERTICAL_SPACING, visitState stateName x y s st) = Some (maxBranchY, st2);
      truthy (Next s);
      run S (the (Next s)) x maxBranchY (connectBranchEnds stateName (the (Next s)) 0 bs st2) r\<rbrakk>
     \<Longrightarrow> run S stateName x y st r"
| parallel_last:
    "\<lbrakk>stateName \<notin> processedStates st; getProp S stateName = Some s;
      Type s = Some ''Parallel''; Branches s = Some bs;
      processBranches stateName (parallelStartX x bs) (y + VERTICAL_SPACING) 0 bs
        (y + VERTICAL_SPACING, visitState stateName x y s st) = Some (maxBranchY, st2);
      \<not> truthy (Next s)\<rbrakk>
     \<Longrightarrow> run S stateName x y st (maxBranchY, st2)"
| choice_default:
    "\<lbrakk>stateName \<notin> processedStates st; getProp S stateName = Some s;
      Type s = Some ''Choice''; Choices s = Some cs;
      runChoices S stateName (choiceStartX x s) (y + VERTICAL_SPACING) 0 cs
        ({}, y + VERTICAL_SPACING, visitState stateName x y s st) (choiceTargets, maxChoiceY, st2);
      truthy (Default s); the (Default s) \<notin> choiceTargets;
      the (Default s) \<notin> processedStates st2;
      run S (the (Default s)) (choiceStartX x s + int (length cs) * HORIZONTAL_SPACING)
        (y + VERTICAL_SPACING) (push_edge (defaultEdge stateName (the (Default s))) st2)
        (defaultY, st4)\<rbrakk>
     \<Longrightarrow> run S stateName x y st (max maxChoiceY defaultY, st4)"
| choice_default_seen:
    "\<lbrakk>stateName \<notin> processedStates st; getProp S stateName = Some s;
      Type s = Some ''Choice''; Choices s = Some cs;
      runChoices S stateName (choiceStartX x s) (y + VERTICAL_SPACING) 0 cs
        ({}, y + VERTICAL_SPACING, visitState stateName x y s st) (choiceTargets, maxChoiceY, st2);
      truthy (Default s); the (Default s) \<notin> choiceTargets;
      the (Default s) \<in> processedStates st2\<rbrakk>
     \<Longrightarrow> run S stateName x y st
           (maxChoiceY, push_edge (defaultEdge stateName (the (Default s))) st2)"
| choice_no_default:
    "\<lbrakk>stateName \<notin> processedStates st; getProp S stateName = Some s;
      Type s = Some ''Choice''; Choices s = Some cs;
      runChoices S stateName (choiceStartX x s) (y + VERTICAL_SPACING) 0 cs
        ({}, y + VERTICAL_SPACING, visitState stateName x y s st) (choiceTargets, maxChoiceY, st2);
      \<not> (truthy (Default s) \<and> the (Default s) \<notin> choiceTargets)\<rbrakk>
     \<Longrightarrow> run S stateName x y st (maxChoiceY, st2)"
| regular_next:
    "\<lbrakk>stateName \<notin> processedStates st; getProp S stateName = Some s;
      \<not> (Type s = Some ''Parallel'' \<and> Branches s \<noteq> None);
      \<not> (Type s = Some ''Choice'' \<and> Choices s \<noteq> None);
      st2 = catchPhase S stateName x y s (visitState stateName x y s st);
      truthy (Next s); the (Next s) \<notin> processedStates st2;
      run S (the (Next s)) x (y + VERTICAL_SPACING)
        (push_edge (nextEdge stateName (the (Next s))) st2) r\<rbrakk>
     \<Longrightarrow> run S stateName x y st (finishState stateName x s r)"
| regular_next_seen:
    "\<lbrakk>stateName \<notin> processedStates st; getProp S stateName = Some s;
      \<not> (Type s = Some ''Parallel'' \<and> Branches s \<noteq> None);
      \<not> (Type s = Some ''Choice'' \<and> Choices s \<noteq> None);
      st2 = catchPhase S stateName x y s (visitState stateName x y s st);
      truthy (Next s); the (Next s) \<in> processedStates st2\<rbrakk>
     \<Longrightarrow> run S stateName x y st
           (finishState stateName x s
              (y + VERTICAL_SPACING, push_edge (nextEdge stateName (the (Next s))) st2))"
| regular_last:
    "\<lbrakk>stateName \<notin> processedStates st; getProp S stateName = Some s;
      \<not> (Type s = Some ''Parallel'' \<and> Branches s \<noteq> None);
      \<not> (Type s = Some ''Choice'' \<and> Choices s \<noteq> None);
      st2 = catchPhase S stateName x y s (visitState stateName x y s st);
      \<not> truthy (Next s)\<rbrakk>
     \<Longrightarrow> run S stateName x y st (finishState stateName x s (y + VERTICAL_SPACING, st2))"
| choices_nil:
    "runChoices S stateName startX nextY index [] acc acc"
| choices_call:
    "\<lbrakk>truthy (choice_Next choice); the (choice_Next choice) \<notin> choiceTargets;
      the (choice_Next choice) \<notin> processedStates st;
      run S (the (choice_Next choice)) (startX + int index * HORIZONTAL_SPACING) nextY
        (push_edge (choiceEdge stateName index (the (choice_Next choice)) (choiceLabel choice)) st)
        (choiceY, st2);
      runChoices S stateName startX nextY (Suc index) rest
        (insert (the (choice_Next choice)) choiceTargets, max maxChoiceY choiceY, st2) r\<rbrakk>
     \<Longrightarrow> runChoices S stateName startX nextY index (choice # rest)
           (choiceTargets, maxChoiceY, st) r"
| choices_seen:
    "\<lbrakk>truthy (choice_Next choice); the (choice_Next choice) \<notin> choiceTargets;
      the (choice_Next choice) \<in> processedStates st;
      runChoices S stateName startX nextY (Suc index) rest
        (insert (the (choice_Next choice)) choiceTargets, maxChoiceY,
         push_edge (choiceEdge stateName index (the (choice_Next choice)) (choiceLabel choice)) st)
        r\<rbrakk>
     \<Longrightarrow> runChoices S stateName startX nextY index (choice # rest)
           (choiceTargets, maxChoiceY, st) r"
| choices_skip:
    "\<lbrakk>\<not> (truthy (choice_Next choice) \<and> the (choice_Next choice) \<notin> choiceTargets);
      runChoices S stateName startX nextY (Suc index) rest (choiceTargets, maxChoiceY, st) r\<rbrakk>
     \<Longrightarrow> runChoices S stateName startX nextY index (choice # rest)
           (choiceTargets, maxChoiceY, st) r"


text \<open>
  The number of property names that still resolve to a state and are not yet processed;
  every call that lays a state out lowers it, which is why the recursion ends.
\<close>

definition unprocessed :: "(string \<times> StateSpec) list \<Rightarrow> lstate \<Rightarrow> nat" where
  "unprocessed S st = card ((fst ` set S \<union> set inheritedKeys) - processedStates st)"

definition call_measure ::
  "(string \<times> StateSpec) list \<times> string \<times> int \<times> int \<times> lstate +
   (string \<times> StateSpec) list \<times> string \<times> int \<times> int \<times> nat \<times> ChoiceRule list \<times> string set \<times> int \<times> lstate
   \<Rightarrow> nat \<times> nat" where
  "call_measure a = (case a of
       Inl (S, name, x, y, st) \<Rightarrow> (unprocessed S st, 0)
     | Inr (S, name, sx, ny, i, cs, t, m, st) \<Rightarrow> (unprocessed S st, Suc (length cs)))"

section \<open>The entry point\<close>

definition emptyGraph :: LayoutGraph where
  "emptyGraph = \<lparr>nodes = [], edges = []\<rparr>"

text \<open>
  The working state when \<^verbatim>\<open>processState(startAt, 0, currentY)\<close> is called: the Start
  node at the origin, the edge from it to the start state, nothing processed.
\<close>

definition initialState :: "string \<Rightarrow> lstate" where
  "initialState startAt =
     \<lparr>nodes = [startNode 0], edges = [startEdge startAt],
      nodePositions = Map.empty, processedStates = {}\<rparr>"

text \<open>The function body from \<^verbatim>\<open>const states = definition.States || {}\<close> on.\<close>

definition layoutDefinition :: "Definition \<Rightarrow> LayoutGraph option" where
  "layoutDefinition d =
     (if \<not> truthy (StartAt d) \<or> length (map fst (States d)) = 0 then Some emptyGraph
      else case processState (States d) (the (StartAt d)) 0 (0 + VERTICAL_SPACING)
                  (initialState (the (StartAt d))) of
             None \<Rightarrow> None
           | Some (y, st) \<Rightarrow> Some \<lparr>nodes = nodes st, edges = edges st\<rparr>)"

text \<open>
  What happens to a value once it is past the \<^verbatim>\<open>JSON.parse\<close> block: reading
  \<^verbatim>\<open>definition.States\<close> throws a TypeError on \<^verbatim>\<open>null\<close> and \<^verbatim>\<open>undefined\<close>; a string, a
  number, a boolean or an array has neither \<^verbatim>\<open>States\<close> nor \<^verbatim>\<open>StartAt\<close>, so
  \<^verbatim>\<open>!startAt\<close> holds and the empty graph is returned.
\<close>

definition layoutValue :: "jsinput \<Rightarrow> (error + LayoutGraph) option" where
  "layoutValue v =
     (case v of
        Undefined \<Rightarrow> Some (Inl TypeError)
      | Null \<Rightarrow> Some (Inl TypeError)
      | Text s \<Rightarrow> Some (Inr emptyGraph)
      | Other \<Rightarrow> Some (Inr emptyGraph)
      | Object d \<Rightarrow> map_option Inr (layoutDefinition d))"

text \<open>
  \<^verbatim>\<open>parseStateMachine(definition)\<close>. \<^verbatim>\<open>JSON.parse\<close> belongs to the runtime and is a
  parameter: \<open>None\<close> is a thrown SyntaxError, which the \<^verbatim>\<open>catch\<close> turns into the empty
  graph. A falsy or string argument is parsed after conversion to a string
  (\<^verbatim>\<open>undefined\<close> and \<^verbatim>\<open>null\<close> become the texts \<^verbatim>\<open>"undefined"\<close> and \<^verbatim>\<open>"null"\<close>). A value of
  the remaining kind, whether it is parsed first or not, ends as a value without
  \<^verbatim>\<open>States\<close>. The result \<open>None\<close> is a call that never returns, \<open>Some (Inl e)\<close> a thrown
  error, \<open>Some (Inr g)\<close> the returned graph.
\<close>

definition parseStateMachine ::
  "(string \<Rightarrow> jsinput option) \<Rightarrow> jsinput \<Rightarrow> (error + LayoutGraph) option" where
  "parseStateMachine JSON_parse definition =
     (case definition of
        Undefined \<Rightarrow>
          (case JSON_parse ''undefined'' of None \<Rightarrow> Some (Inr emptyGraph)
           | Some v \<Rightarrow> layoutValue v)
      | Null \<Rightarrow>
          (case JSON_parse ''null'' of None \<Rightarrow> Some (Inr emptyGraph)
           | Some v \<Rightarrow> layoutValue v)
      | Text s \<Rightarrow>
          (case JSON_parse s of None \<Rightarrow> Some (Inr emptyGraph)
           | Some v \<Rightarrow> layoutValue v)
      | Object d \<Rightarrow> layoutValue (Object d)
      | Other \<Rightarrow> layoutValue Other)"

section \<open>Definitions used as examples\<close>

text \<open>A start state that is not a key of a non-empty \<^verbatim>\<open>States\<close> object.\<close>

definition danglingStart :: Definition where
  "danglingStart = Definition (Some ''X'')
     [(''A'', StateSpec (Some ''Pass'') None True None None None None)]"

text \<open>
  A Parallel state with one branch whose two states name each other as \<^verbatim>\<open>Next\<close>.
\<close>

definition cycleA :: StateSpec where
  "cycleA = StateSpec (Some ''Pass'') (Some ''B'') False None None None None"

definition cycleB :: StateSpec where
  "cycleB = StateSpec (Some ''Pass'') (Some ''A'') False None None None None"

definition cycleStates :: "(string \<times> StateSpec) list" where
  "cycleStates = [(''A'', cycleA), (''B'', cycleB)]"

definition branchCycle :: Definition where
  "branchCycle = Definition (Some ''P'')
     [(''P'', StateSpec (Some ''Parallel'') None True None None None
               (Some [Definition (Some ''A'') cycleStates]))]"

text \<open>A Parallel state that carries the end flag, and a Task state that carries it.\<close>

definition parallelEnd :: Definition where
  "parallelEnd = Definition (Some ''P'')
     [(''P'', StateSpec (Some ''Parallel'') None True None None None
               (Some [Definition (Some ''A'')
                        [(''A'', StateSpec (Some ''Pass'') None True None None None None)]]))]"

definition taskEnd :: Definition where
  "taskEnd = Definition (Some ''T'')
     [(''T'', StateSpec (Some ''Task'') None True None None None None)]"

section \<open>Notions the properties are stated with\<close>

text \<open>
  The two dispatch tests of \<^verbatim>\<open>processState\<close>, and the test for a state handled by its
  last branch (the comment there calls it a regular state).
\<close>

definition isParallel :: "StateSpec \<Rightarrow> bool" where
  "isParallel s = (Type s = Some ''Parallel'' \<and> Branches s \<noteq> None)"

definition isChoice :: "StateSpec \<Rightarrow> bool" where
  "isChoice s = (Type s = Some ''Choice'' \<and> Choices s \<noteq> None)"

definition isRegular :: "StateSpec \<Rightarrow> bool" where
  "isRegular s = (\<not> isParallel s \<and> \<not> isChoice s)"

text \<open>
  The state names that \<^verbatim>\<open>processState\<close> passes to a recursive call while it handles a
  state: the \<^verbatim>\<open>Next\<close> of a Parallel or regular state, the rule targets and the
  \<^verbatim>\<open>Default\<close> of a Choice state.
\<close>

definition followed :: "StateSpec \<Rightarrow> string set" where
  "followed s =
     (if isChoice s then
        {the (choice_Next c) | c. c \<in> set (the (Choices s)) \<and> truthy (choice_Next c)}
        \<union> (if truthy (Default s) then {the (Default s)} else {})
      else if truthy (Next s) then {the (Next s)} else {})"

text \<open>
  A node made for a state of the main graph: it carries the state object and is not
  marked as a branch member. The Start and End markers carry no state.
\<close>

definition mainNode :: "node \<Rightarrow> bool" where
  "mainNode n = (state n \<noteq> None \<and> \<not> isBranch n)"

definition mainIds :: "node list \<Rightarrow> string list" where
  "mainIds ns = map node_id (filter mainNode ns)"

text \<open>The ids of the nodes created so far.\<close>

definition nodeIds :: "lstate \<Rightarrow> string set" where
  "nodeIds st = node_id ` set (nodes st)"

text \<open>
  One step of the branch layout: push the branch node, push the edge that leads to it,
  record its position.
\<close>

definition branchStepState ::
  "edge \<Rightarrow> string \<Rightarrow> string \<Rightarrow> int \<Rightarrow> int \<Rightarrow> StateSpec \<Rightarrow> lstate \<Rightarrow> lstate" where
  "branchStepState e nodeId name x y s st =
     set_position nodeId (JPoint x y) (push_edge e (push_node (branchNode nodeId name x y s) st))"

text \<open>
  Every processed state has exactly one node of the main graph, and every such node
  belongs to a processed state.
\<close>

definition uniqueMain :: "lstate \<Rightarrow> bool" where
  "uniqueMain st = (distinct (mainIds (nodes st)) \<and> set (mainIds (nodes st)) = processedStates st)"

text \<open>A Task whose catch rule names a Pass state that nothing else refers to.\<close>

definition catchOnly :: Definition where
  "catchOnly = Definition (Some ''T'')
     [(''T'', StateSpec (Some ''Task'') None True (Some [CatchBlock (Some ''H'')]) None None None),
      (''H'', StateSpec (Some ''Pass'') None True None None None None)]"




text \<open>
  \<open>sourcesKnown\<close>: every edge source that is a string, every node id stored in
  \<^verbatim>\<open>nodePositions\<close> and every processed state is the id of a node. \<open>targetsKnown S Q\<close>:
  every edge whose target resolves to a state, other than an error edge to a state that
  is not of type Fail (those carry the target handle \<^verbatim>\<open>top\<close>), has a target that is the
  id of a node or one of the names \<open>Q\<close> still to be processed.
\<close>

definition sourcesKnown :: "lstate \<Rightarrow> bool" where
  "sourcesKnown st =
     ((\<forall>e\<in>set (edges st). \<forall>a. source e = JString a \<longrightarrow> a \<in> nodeIds st)
      \<and> (\<forall>k a. nodePositions st k = Some (JString a) \<longrightarrow> a \<in> nodeIds st)
      \<and> processedStates st \<subseteq> nodeIds st)"

definition targetsKnown :: "(string \<times> StateSpec) list \<Rightarrow> string set \<Rightarrow> lstate \<Rightarrow> bool" where
  "targetsKnown S Q st =
     (processedStates st \<subseteq> nodeIds st
      \<and> (\<forall>e\<in>set (edges st). getProp S (target e) \<noteq> None \<and> targetHandle e \<noteq> Some ''top''
            \<longrightarrow> target e \<in> nodeIds st \<union> Q))"

text \<open>A Task whose \<^verbatim>\<open>Next\<close> is not a key of the states object.\<close>

definition danglingNext :: Definition where
  "danglingNext = Definition (Some ''A'')
     [(''A'', StateSpec (Some ''Task'') (Some ''B'') False None None None None)]"

text \<open>
  The transitions of a state of the main graph that reachability follows: those that
  \<^verbatim>\<open>processState\<close> follows, none for a Fail state (a Fail state is terminal, and
  when the engine reaches one through a catch rule it does not read its fields).
  \<open>reachable S a t\<close>: \<open>t\<close> is reached from \<open>a\<close> through states that resolve in \<open>S\<close>.
\<close>

definition transitions :: "StateSpec \<Rightarrow> string set" where
  "transitions s = (if Type s = Some ''Fail'' then {} else followed s)"

inductive reachable :: "(string \<times> StateSpec) list \<Rightarrow> string \<Rightarrow> string \<Rightarrow> bool"
  for S :: "(string \<times> StateSpec) list" and a :: string
where
  start: "getProp S a \<noteq> None \<Longrightarrow> reachable S a a"
| step: "\<lbrakk>reachable S a b; getProp S b = Some s; c \<in> transitions s; getProp S c \<noteq> None\<rbrakk>
         \<Longrightarrow> reachable S a c"

text \<open>
  \<open>newClosed S st st'\<close>: between \<open>st\<close> and \<open>st'\<close> the processed states only grew, and every
  state processed in between has all its transitions' targets processed in \<open>st'\<close>.
\<close>

definition newClosed :: "(string \<times> StateSpec) list \<Rightarrow> lstate \<Rightarrow> lstate \<Rightarrow> bool" where
  "newClosed S st st' =
     (processedStates st \<subseteq> processedStates st'
      \<and> (\<forall>b\<in>processedStates st' - processedStates st. \<forall>s c.
            getProp S b = Some s \<longrightarrow> c \<in> transitions s \<longrightarrow> getProp S c \<noteq> None
            \<longrightarrow> c \<in> processedStates st'))"

text \<open>The targets of a list of choice rules; a set of names resolved in a state.\<close>

definition ruleTargets :: "ChoiceRule list \<Rightarrow> string set" where
  "ruleTargets cs = {the (choice_Next c) | c. c \<in> set cs \<and> truthy (choice_Next c)}"

definition resolvedIn :: "(string \<times> StateSpec) list \<Rightarrow> string set \<Rightarrow> lstate \<Rightarrow> bool" where
  "resolvedIn S T st = (\<forall>t\<in>T. getProp S t \<noteq> None \<longrightarrow> t \<in> processedStates st)"




text \<open>
  The edges that the Choice handler draws: the rule edges are amber (\<^verbatim>\<open>#fbbf24\<close>), the
  default edge is dashed \<^verbatim>\<open>6,4\<close>; no other edge has either style. \<open>choiceEdges c t es\<close>
  are the edges of that kind from \<open>c\<close> to \<open>t\<close>. \<open>firstReference c i cs t\<close> is the edge of
  the first rule of \<open>cs\<close> that names \<open>t\<close>, the rules being numbered from \<open>i\<close>, and no edge
  when no rule names \<open>t\<close>. \<open>expectedEdges S c t\<close> is what a Choice state \<open>c\<close> is to draw
  to \<open>t\<close>: the edge of the first rule that names \<open>t\<close>, or the default edge when no rule
  names \<open>t\<close> and the default does; \<open>edgeCount S c t st\<close>: the edges drawn so far from \<open>c\<close>
  to \<open>t\<close> are these once \<open>c\<close> is processed, and none before.
\<close>

definition choiceStyle :: "edge \<Rightarrow> bool" where
  "choiceStyle e = (stroke e = ''#fbbf24'' \<or> strokeDasharray e = Some ''6,4'')"

definition choiceEdges :: "string \<Rightarrow> string \<Rightarrow> edge list \<Rightarrow> edge list" where
  "choiceEdges c t es = filter (\<lambda>e. source e = JString c \<and> target e = t \<and> choiceStyle e) es"

fun firstReference :: "string \<Rightarrow> nat \<Rightarrow> ChoiceRule list \<Rightarrow> string \<Rightarrow> edge list" where
  "firstReference c i [] t = []"
| "firstReference c i (r # rs) t =
     (if truthy (choice_Next r) \<and> the (choice_Next r) = t then [choiceEdge c i t (choiceLabel r)]
      else firstReference c (Suc i) rs t)"

definition expectedEdges :: "(string \<times> StateSpec) list \<Rightarrow> string \<Rightarrow> string \<Rightarrow> edge list" where
  "expectedEdges S c t =
     (case getProp S c of
        None \<Rightarrow> []
      | Some sp \<Rightarrow>
          if isChoice sp then
            (if t \<in> ruleTargets (the (Choices sp)) then firstReference c 0 (the (Choices sp)) t
             else if truthy (Default sp) \<and> the (Default sp) = t then [defaultEdge c t]
             else [])
          else [])"

definition edgeCount :: "(string \<times> StateSpec) list \<Rightarrow> string \<Rightarrow> string \<Rightarrow> lstate \<Rightarrow> bool" where
  "edgeCount S c t st =
     (choiceEdges c t (edges st) = (if c \<in> processedStates st then expectedEdges S c t else []))"

text \<open>A Choice state whose two rules and default all name the state \<open>T\<close>.\<close>

definition sharedTarget :: Definition where
  "sharedTarget = Definition (Some ''C'')
     [(''C'', StateSpec (Some ''Choice'') None False None
                (Some [ChoiceRule (Some ''T'') ''x = 1'', ChoiceRule (Some ''T'') ''x = 2''])
                (Some ''T'') None),
      (''T'', StateSpec (Some ''Pass'') None True None None None None)]"

text \<open>The same Choice state, with the target \<open>D\<close>, inside the branch of a Parallel state.\<close>

definition branchSharedTarget :: Definition where
  "branchSharedTarget = Definition (Some ''P'')
     [(''P'', StateSpec (Some ''Parallel'') None True None None None
               (Some [Definition (Some ''C'')
                  [(''C'', StateSpec (Some ''Choice'') None False None
                             (Some [ChoiceRule (Some ''D'') ''x = 1'',
                                    ChoiceRule (Some ''D'') ''x = 2'']) None None),
                   (''D'', StateSpec (Some ''Pass'') None True None None None None)]]))]"

text \<open>
  The names a definition refers to in the main graph: its start state and what a state
  found by \<^verbatim>\<open>states[name]\<close> names as \<^verbatim>\<open>Next\<close>, rule target or \<^verbatim>\<open>Default\<close>.
\<close>

definition referenced :: "Definition \<Rightarrow> string set" where
  "referenced d = (if truthy (StartAt d) then {the (StartAt d)} else {})
     \<union> {t. \<exists>n s. getProp (States d) n = Some s \<and> t \<in> followed s}"

text \<open>
  The exit edge is the only edge drawn in \<^verbatim>\<open>#f87171\<close> without dashes (the error edge is
  dashed). \<open>failTarget S t\<close> is the test \<^verbatim>\<open>targetState && targetState.Type === "Fail"\<close> of
  the catch handling.
\<close>

definition isExitEdge :: "edge \<Rightarrow> bool" where
  "isExitEdge e = (stroke e = ''#f87171'' \<and> strokeDasharray e = None)"

definition failTarget :: "(string \<times> StateSpec) list \<Rightarrow> string \<Rightarrow> bool" where
  "failTarget S t = (case getProp S t of None \<Rightarrow> False | Some s \<Rightarrow> Type s = Some ''Fail'')"

text \<open>
  \<open>targetsPlaced S R\<close>: every processed state is the id of a node; an edge that enters at
  the handle \<^verbatim>\<open>top\<close> leads to a target that is not a Fail state; the target of an exit
  edge is the id of a node; and the target of any other edge is the id of a node or one
  of the names \<open>R\<close>.
\<close>

definition targetsPlaced :: "(string \<times> StateSpec) list \<Rightarrow> string set \<Rightarrow> lstate \<Rightarrow> bool" where
  "targetsPlaced S R st =
     (processedStates st \<subseteq> nodeIds st
      \<and> (\<forall>e\<in>set (edges st).
            (targetHandle e = Some ''top'' \<longrightarrow> \<not> failTarget S (target e))
          \<and> (isExitEdge e \<longrightarrow> target e \<in> nodeIds st)
          \<and> (target e \<in> nodeIds st \<union> R \<or> targetHandle e = Some ''top'')))"

text \<open>
  A state named like the key under which a Parallel state records the last node of its
  first branch, before a Parallel state whose only branch has no start state.
\<close>

definition stalePosition :: Definition where
  "stalePosition = Definition (Some ''P_branch_0_end'')
     [(''P_branch_0_end'', StateSpec (Some ''Task'') (Some ''P'') False None None None None),
      (''P'', StateSpec (Some ''Parallel'') (Some ''S'') False None None None
                (Some [Definition None []])),
      (''S'', StateSpec (Some ''Pass'') None True None None None None)]"

text \<open>
  \<open>errorEdgesDrawn S st\<close>: for every processed state whose catch rules the engine reads (a
  state handled as a regular state and not of type Fail) the error edge of each of its
  catch rules with a target is among the edges. \<open>followReach S a t\<close>: \<open>t\<close> is reached
  from \<open>a\<close> through the transitions that \<^verbatim>\<open>processState\<close> follows.
\<close>

definition errorEdgesDrawn :: "(string \<times> StateSpec) list \<Rightarrow> lstate \<Rightarrow> bool" where
  "errorEdgesDrawn S st =
     (\<forall>T\<in>processedStates st. \<forall>tp cs i.
        getProp S T = Some tp \<longrightarrow> isRegular tp \<longrightarrow> Type tp \<noteq> Some ''Fail'' \<longrightarrow>
        Catch tp = Some cs \<longrightarrow> i < length cs \<longrightarrow> truthy (catch_Next (cs ! i)) \<longrightarrow>
        catchEdge T i (the (catch_Next (cs ! i))) (failTarget S (the (catch_Next (cs ! i))))
          \<in> set (edges st))"

inductive followReach :: "(string \<times> StateSpec) list \<Rightarrow> string \<Rightarrow> string \<Rightarrow> bool"
  for S :: "(string \<times> StateSpec) list" and a :: string
where
  first: "followReach S a a"
| follow: "\<lbrakk>followReach S a b; getProp S b = Some s; c \<in> followed s\<rbrakk> \<Longrightarrow> followReach S a c"


text \<open>
  \<open>branchChain bs a t\<close>: inside a branch with the states \<open>bs\<close>, the walk that starts at
  \<open>a\<close> and follows \<^verbatim>\<open>Next\<close> as long as the next name is found reaches \<open>t\<close>. \<open>chainList bs s ns\<close>:
  that walk, started after the state \<open>s\<close>, visits the names \<open>ns\<close> in this order and stops.
\<close>

inductive branchChain :: "(string \<times> StateSpec) list \<Rightarrow> string \<Rightarrow> string \<Rightarrow> bool"
  for bs :: "(string \<times> StateSpec) list" and a :: string
where
  start: "getProp bs a \<noteq> None \<Longrightarrow> branchChain bs a a"
| step: "\<lbrakk>branchChain bs a b; getProp bs b = Some s; truthy (Next s);
          getProp bs (the (Next s)) \<noteq> None\<rbrakk> \<Longrightarrow> branchChain bs a (the (Next s))"




text \<open>
  \<open>branchNodeOf p i t\<close>: the node is the branch node of the state \<open>t\<close> in branch \<open>i\<close> of
  \<open>p\<close>. \<open>onBranch S p i t\<close>: \<open>p\<close> is a Parallel state with branches and the walk of its
  branch \<open>i\<close> reaches \<open>t\<close>. \<open>branchCount S st\<close>: each such state has exactly one branch
  node once \<open>p\<close> is processed, and there is no other branch node of that form.
\<close>

definition branchNodeOf :: "string \<Rightarrow> nat \<Rightarrow> string \<Rightarrow> node \<Rightarrow> bool" where
  "branchNodeOf p i t n = (isBranch n \<and> node_id n = branchId p i t \<and> label n = t)"



text \<open>
  \<open>nextEdges S st\<close>: every processed state that is handled as a regular state, is not of
  type Fail and has a \<^verbatim>\<open>Next\<close> has its edge to that target among the edges.
  \<open>placedAt a x y st\<close>: \<open>a\<close> is processed and has a node of the main graph at \<open>(x, y)\<close>.
\<close>

definition nextDrawn :: "(string \<times> StateSpec) list \<Rightarrow> string \<Rightarrow> edge set \<Rightarrow> bool" where
  "nextDrawn S c es =
     (\<forall>sp. getProp S c = Some sp \<longrightarrow> isRegular sp \<longrightarrow> Type sp \<noteq> Some ''Fail'' \<longrightarrow>
        truthy (Next sp) \<longrightarrow> nextEdge c (the (Next sp)) \<in> es)"

definition nextEdges :: "(string \<times> StateSpec) list \<Rightarrow> lstate \<Rightarrow> bool" where
  "nextEdges S st = (\<forall>c\<in>processedStates st. nextDrawn S c (set (edges st)))"

definition placedAt :: "string \<Rightarrow> int \<Rightarrow> int \<Rightarrow> lstate \<Rightarrow> bool" where
  "placedAt a x y st =
     (a \<in> processedStates st
      \<and> (\<exists>n\<in>set (nodes st). mainNode n \<and> node_id n = a \<and> pos_x n = x \<and> pos_y n = y))"

text \<open>
  A branch that is a chain of two states, \<open>a\<close> then \<open>b\<close>; and the working state after the
  walk of such a branch: the node of \<open>a\<close>, the edge from the Parallel state, the node of
  \<open>b\<close>, the step edge, their positions, and the id of the last node under the key that
  ends in \<^verbatim>\<open>_end\<close>.
\<close>

definition chain2 :: "string \<Rightarrow> StateSpec \<Rightarrow> string \<Rightarrow> StateSpec \<Rightarrow> Definition" where
  "chain2 a A b B = Definition (Some a) [(a, A), (b, B)]"

definition branchTrace :: "string \<Rightarrow> int \<Rightarrow> int \<Rightarrow> nat \<Rightarrow> string \<Rightarrow> StateSpec \<Rightarrow> string \<Rightarrow> StateSpec
     \<Rightarrow> lstate \<Rightarrow> lstate" where
  "branchTrace n bx ny i a A b B st =
     set_position (n @ ''_branch_'' @ string_of_nat i @ ''_end'') (JString (branchId n i b))
       (set_position (branchId n i b) (JPoint bx (ny + VERTICAL_SPACING))
          (push_edge (branchStepEdge (branchId n i a) (branchId n i b))
             (push_node (branchNode (branchId n i b) b bx (ny + VERTICAL_SPACING) B)
                (set_position (branchId n i a) (JPoint bx ny)
                   (push_edge (branchEdge n (branchId n i a))
                      (push_node (branchNode (branchId n i a) a bx ny A) st))))))"

text \<open>
  A definition made of the start state \<open>p\<close> and the state \<open>s\<close>. The example: a Parallel
  state with two branches of two states each, and the state that follows it. The same
  with a successor named like the node of the first state of the first branch.
\<close>

definition rejoinDefinition :: "string \<Rightarrow> StateSpec \<Rightarrow> string \<Rightarrow> StateSpec \<Rightarrow> Definition" where
  "rejoinDefinition p P s S = Definition (Some p) [(p, P), (s, S)]"

definition rejoinExample :: Definition where
  "rejoinExample = rejoinDefinition ''P''
     (StateSpec (Some ''Parallel'') (Some ''S'') False None None None
        (Some [chain2 ''A1'' (StateSpec (Some ''Task'') (Some ''B1'') False None None None None)
                      ''B1'' (StateSpec (Some ''Task'') None True None None None None),
               chain2 ''A2'' (StateSpec (Some ''Task'') (Some ''B2'') False None None None None)
                      ''B2'' (StateSpec (Some ''Task'') None True None None None None)]))
     ''S'' (StateSpec (Some ''Pass'') None True None None None None)"

definition rejoinCollision :: Definition where
  "rejoinCollision = rejoinDefinition ''P''
     (StateSpec (Some ''Parallel'') (Some ''P_branch_0_A1'') False None None None
        (Some [chain2 ''A1'' (StateSpec (Some ''Task'') (Some ''B1'') False None None None None)
                      ''B1'' (StateSpec (Some ''Task'') None True None None None None),
               chain2 ''A2'' (StateSpec (Some ''Task'') (Some ''B2'') False None None None None)
                      ''B2'' (StateSpec (Some ''Task'') None True None None None None)]))
     ''P_branch_0_A1'' (StateSpec (Some ''Pass'') None True None None None None)"

section \<open>The traversal always returns\<close>

subsection \<open>What the helpers do to the set of processed states\<close>

lemma processed_push_node [simp]: "processedStates (push_node n st) = processedStates st"
  by (simp add: push_node_def)
lemma processed_push_edge [simp]: "processedStates (push_edge e st) = processedStates st"
  by (simp add: push_edge_def)
lemma processed_set_position [simp]: "processedStates (set_position k v st) = processedStates st"
  by (simp add: set_position_def)
lemma processed_add_processed [simp]: "processedStates (add_processed k st) = insert k (processedStates st)"
  by (simp add: add_processed_def)
lemma processed_visitState [simp]: "processedStates (visitState n x y s st) = insert n (processedStates st)"
  by (simp add: visitState_def)

lemma walkBranch_processed:
  assumes "walkBranch bs n i bx cur prev by st = Some r"
  shows "processedStates (snd (snd r)) = processedStates st"
  by (rule walkBranch.raw_induct[where P = "\<lambda>bs n i bx cur prev by st r. processedStates (snd (snd r)) = processedStates st", OF _ assms])
     (auto split: if_splits option.splits)

lemma processBranch_processed:
  "processBranch n sx ny i b acc = Some r \<Longrightarrow> processedStates (snd r) = processedStates (snd acc)"
  by (auto simp: processBranch_def split: prod.splits if_splits option.splits dest!: walkBranch_processed)

lemma processBranches_processed:
  "processBranches n sx ny i bs acc = Some r \<Longrightarrow> processedStates (snd r) = processedStates (snd acc)"
  by (induction bs arbitrary: i acc) (auto split: option.splits dest!: processBranch_processed)

lemma connectBranchEnds_processed [simp]:
  "processedStates (connectBranchEnds n nx i bs st) = processedStates st"
  by (induction bs arbitrary: i st) (auto split: option.splits)

lemma catchStep_processed:
  "processedStates st \<subseteq> processedStates (catchStep S n x y i c st)"
  by (auto simp: catchStep_def Let_def)

lemma processCatch_processed:
  "processedStates st \<subseteq> processedStates (processCatch S n x y i cs st)"
proof (induction cs arbitrary: i st)
  case Nil
  show ?case by simp
next
  case (Cons c cs)
  have "processedStates st \<subseteq> processedStates (catchStep S n x y i c st)"
    by (rule catchStep_processed)
  also have "\<dots> \<subseteq> processedStates (processCatch S n x y (Suc i) cs (catchStep S n x y i c st))"
    by (rule Cons.IH)
  finally show ?case by simp
qed

lemma catchPhase_processed: "processedStates st \<subseteq> processedStates (catchPhase S n x y s st)"
  by (simp add: catchPhase_def processCatch_processed split: option.splits)

lemma finishState_processed [simp]: "processedStates (snd (finishState n x s r)) = processedStates (snd r)"
  by (simp add: finishState_def split: prod.splits)

lemma run_mono:
  "run S name x y st r \<Longrightarrow> processedStates st \<subseteq> processedStates (snd r)"
  "runChoices S name sx ny i cs acc r' \<Longrightarrow> processedStates (snd (snd acc)) \<subseteq> processedStates (snd (snd r'))"
proof (induction rule: run_runChoices.inducts)
  case (parallel_next stateName st s bs x y maxBranchY st2 r)
  then show ?case by (auto dest!: processBranches_processed)
next
  case (parallel_last stateName st s bs x y maxBranchY st2)
  then show ?case by (auto dest!: processBranches_processed)
next
  case (regular_next stateName st s st2 x y r)
  then show ?case using catchPhase_processed[of "visitState stateName x y s st" S stateName x y s] by auto
next
  case (regular_next_seen stateName st s st2 x y)
  then show ?case using catchPhase_processed[of "visitState stateName x y s st" S stateName x y s] by auto
next
  case (regular_last stateName st s st2 x y)
  then show ?case using catchPhase_processed[of "visitState stateName x y s st" S stateName x y s] by auto
qed auto

lemma getProp_keys: "getProp S k \<noteq> None \<Longrightarrow> k \<in> fst ` set S \<union> set inheritedKeys"
  by (auto simp: getProp_def split: option.splits if_splits dest: map_of_SomeD intro: rev_image_eqI)

lemma unprocessed_mono: "processedStates st \<subseteq> processedStates st' \<Longrightarrow> unprocessed S st' \<le> unprocessed S st"
  unfolding unprocessed_def by (intro card_mono) auto

lemma unprocessed_less:
  "getProp S k \<noteq> None \<Longrightarrow> k \<notin> processedStates st \<Longrightarrow> insert k (processedStates st) \<subseteq> processedStates st'
   \<Longrightarrow> unprocessed S st' < unprocessed S st"
proof -
  assume a: "getProp S k \<noteq> None" "k \<notin> processedStates st" "insert k (processedStates st) \<subseteq> processedStates st'"
  let ?K = "fst ` set S \<union> set inheritedKeys"
  have "k \<in> ?K - processedStates st" using a getProp_keys by blast
  moreover have "k \<notin> ?K - processedStates st'" using a by blast
  moreover have "?K - processedStates st' \<subseteq> ?K - processedStates st" using a by blast
  ultimately have "?K - processedStates st' \<subset> ?K - processedStates st" by blast
  then show ?thesis unfolding unprocessed_def by (intro psubset_card_mono) auto
qed

lemma dom_run:
  "processState_processChoices_dom (Inl (S, name, x, y, st)) \<Longrightarrow>
     processState S name x y st = Some r \<Longrightarrow> run S name x y st r"
  "processState_processChoices_dom (Inr (S, name, sx, ny, i, cs, acc)) \<Longrightarrow>
     processChoices S name sx ny i cs acc = Some r' \<Longrightarrow> runChoices S name sx ny i cs acc r'"
proof (induction arbitrary: r and r' rule: processState_processChoices.pinduct)
  case (1 S stateName x y st)
  note eq = "1.prems"[unfolded processState.psimps[OF "1.hyps"]]
  show ?case
  proof (cases "stateName \<in> processedStates st \<or> getProp S stateName = None")
    case True
    then show ?thesis using eq by (auto intro: run_runChoices.skip)
  next
    case False
    then obtain s where gs: "getProp S stateName = Some s" and np: "stateName \<notin> processedStates st" by auto
    have s_def: "s = the (getProp S stateName)" using gs by simp
    define st1 where "st1 = visitState stateName x y s st"
    consider (par) "Type s = Some ''Parallel'' \<and> Branches s \<noteq> None"
      | (cho) "\<not> (Type s = Some ''Parallel'' \<and> Branches s \<noteq> None)" "Type s = Some ''Choice'' \<and> Choices s \<noteq> None"
      | (reg) "\<not> (Type s = Some ''Parallel'' \<and> Branches s \<noteq> None)" "\<not> (Type s = Some ''Choice'' \<and> Choices s \<noteq> None)"
      by blast
    then show ?thesis
    proof cases
      case par
      then obtain bs where bs: "Branches s = Some bs" and ty: "Type s = Some ''Parallel''" by auto
      from eq np gs par obtain my st2 where
        pb: "processBranches stateName (parallelStartX x (the (Branches s))) (y + VERTICAL_SPACING) 0 (the (Branches s))
               (y + VERTICAL_SPACING, st1) = Some (my, st2)"
        and rest: "(if truthy (Next s) then processState S (the (Next s)) x my
                     (connectBranchEnds stateName (the (Next s)) 0 (the (Branches s)) st2)
                    else Some (my, st2)) = Some r"
        by (auto simp: Let_def st1_def split: option.splits)
      show ?thesis
      proof (cases "truthy (Next s)")
        case True
        have "run S (the (Next s)) x my (connectBranchEnds stateName (the (Next s)) 0 (the (Branches s)) st2) r"
          using "1.IH"(1)[OF False s_def st1_def refl par pb refl True] rest True by simp
        moreover have "processBranches stateName (parallelStartX x bs) (y + VERTICAL_SPACING) 0 bs
               (y + VERTICAL_SPACING, visitState stateName x y s st) = Some (my, st2)"
          using pb bs st1_def by simp
        ultimately show ?thesis using run_runChoices.parallel_next[OF np gs ty bs _ True] bs by simp
      next
        case f: False
        have r: "r = (my, st2)" using rest f by simp
        have "processBranches stateName (parallelStartX x bs) (y + VERTICAL_SPACING) 0 bs
               (y + VERTICAL_SPACING, visitState stateName x y s st) = Some (my, st2)"
          using pb bs st1_def by simp
        then show ?thesis unfolding r by (rule run_runChoices.parallel_last[OF np gs ty bs _ f])
      qed
    next
      case cho
      then obtain cs where cs: "Choices s = Some cs" and ty: "Type s = Some ''Choice''" by auto
      from eq np gs cho obtain ct my st2 where
        pc: "processChoices S stateName (choiceStartX x s) (y + VERTICAL_SPACING) 0 (the (Choices s))
               ({}, y + VERTICAL_SPACING, st1) = Some (ct, my, st2)"
        and rest: "(if truthy (Default s) \<and> the (Default s) \<notin> ct then
                   (if the (Default s) \<notin> processedStates st2 then
                      (case processState S (the (Default s))
                              (choiceStartX x s + int (length (the (Choices s))) * HORIZONTAL_SPACING)
                              (y + VERTICAL_SPACING)
                              (push_edge (defaultEdge stateName (the (Default s))) st2) of
                         None \<Rightarrow> None
                       | Some (defaultY, st4) \<Rightarrow> Some (max my defaultY, st4))
                    else Some (my, push_edge (defaultEdge stateName (the (Default s))) st2))
                 else Some (my, st2)) = Some r"
        by (auto simp: Let_def st1_def split: option.splits)
      have rc: "runChoices S stateName (choiceStartX x s) (y + VERTICAL_SPACING) 0 cs
               ({}, y + VERTICAL_SPACING, visitState stateName x y s st) (ct, my, st2)"
        using "1.IH"(2)[OF False s_def st1_def refl cho(1) cho(2) pc] cs st1_def by simp
      consider (a) "truthy (Default s)" "the (Default s) \<notin> ct" "the (Default s) \<notin> processedStates st2"
        | (b) "truthy (Default s)" "the (Default s) \<notin> ct" "the (Default s) \<in> processedStates st2"
        | (c) "\<not> (truthy (Default s) \<and> the (Default s) \<notin> ct)" by blast
      then show ?thesis
      proof cases
        case a
        with rest obtain dy st4 where
          ps: "processState S (the (Default s))
                 (choiceStartX x s + int (length (the (Choices s))) * HORIZONTAL_SPACING)
                 (y + VERTICAL_SPACING) (push_edge (defaultEdge stateName (the (Default s))) st2) = Some (dy, st4)"
          and r: "r = (max my dy, st4)"
          by (auto split: option.splits)
        have "run S (the (Default s)) (choiceStartX x s + int (length (the (Choices s))) * HORIZONTAL_SPACING)
                 (y + VERTICAL_SPACING) (push_edge (defaultEdge stateName (the (Default s))) st2) (dy, st4)"
          using "1.IH"(3)[OF False s_def st1_def refl cho(1) cho(2) pc refl refl _ a(3) ps] a by simp
        then show ?thesis using run_runChoices.choice_default[OF np gs ty cs rc a] r cs by simp
      next
        case b
        then show ?thesis using run_runChoices.choice_default_seen[OF np gs ty cs rc b] rest by simp
      next
        case c
        then show ?thesis using run_runChoices.choice_no_default[OF np gs ty cs rc c] rest by auto
      qed
    next
      case reg
      define st2 where "st2 = catchPhase S stateName x y s st1"
      have st2': "st2 = catchPhase S stateName x y s (visitState stateName x y s st)" by (simp add: st2_def st1_def)
      from eq np gs reg have
        rest: "(if truthy (Next s) then
                  (if the (Next s) \<notin> processedStates st2 then
                     (case processState S (the (Next s)) x (y + VERTICAL_SPACING)
                             (push_edge (nextEdge stateName (the (Next s))) st2) of
                        None \<Rightarrow> None
                      | Some r \<Rightarrow> Some (finishState stateName x s r))
                   else Some (finishState stateName x s
                                (y + VERTICAL_SPACING, push_edge (nextEdge stateName (the (Next s))) st2)))
                else Some (finishState stateName x s (y + VERTICAL_SPACING, st2))) = Some r"
        by (auto simp: Let_def st1_def st2_def split: option.splits)
      consider (a) "truthy (Next s)" "the (Next s) \<notin> processedStates st2"
        | (b) "truthy (Next s)" "the (Next s) \<in> processedStates st2"
        | (c) "\<not> truthy (Next s)" by blast
      then show ?thesis
      proof cases
        case a
        with rest obtain r0 where
          ps: "processState S (the (Next s)) x (y + VERTICAL_SPACING)
                             (push_edge (nextEdge stateName (the (Next s))) st2) = Some r0"
          and r: "r = finishState stateName x s r0"
          by (auto split: option.splits)
        have "run S (the (Next s)) x (y + VERTICAL_SPACING)
                             (push_edge (nextEdge stateName (the (Next s))) st2) r0"
          using "1.IH"(4)[OF False s_def st1_def refl reg(1) reg(2) st2_def a(1) a(2) ps] by simp
        then show ?thesis using run_runChoices.regular_next[OF np gs reg st2' a] r by simp
      next
        case b
        then show ?thesis using run_runChoices.regular_next_seen[OF np gs reg st2' b] rest by simp
      next
        case c
        then show ?thesis using run_runChoices.regular_last[OF np gs reg st2' c] rest by simp
      qed
    qed
  qed
next
  case (2 S stateName startX nextY index acc)
  then show ?case by (simp add: processChoices.psimps run_runChoices.choices_nil)
next
  case (3 S stateName startX nextY index choice rest acc)
  note eq = "3.prems"[unfolded processChoices.psimps(2)[OF "3.hyps"]]
  obtain ct mx st where acc: "acc = (ct, mx, st)" by (cases acc) auto
  consider (a) "truthy (choice_Next choice)" "the (choice_Next choice) \<notin> ct" "the (choice_Next choice) \<notin> processedStates st"
    | (b) "truthy (choice_Next choice)" "the (choice_Next choice) \<notin> ct" "the (choice_Next choice) \<in> processedStates st"
    | (c) "\<not> (truthy (choice_Next choice) \<and> the (choice_Next choice) \<notin> ct)" by blast
  then show ?case
  proof cases
    case a
    with eq acc obtain cy st2 where
      ps: "processState S (the (choice_Next choice)) (startX + int index * HORIZONTAL_SPACING) nextY
             (push_edge (choiceEdge stateName index (the (choice_Next choice)) (choiceLabel choice)) st) = Some (cy, st2)"
      and pc: "processChoices S stateName startX nextY (Suc index) rest
                    (insert (the (choice_Next choice)) ct, max mx cy, st2) = Some r'"
      by (auto split: option.splits)
    have a12: "truthy (choice_Next choice) \<and> the (choice_Next choice) \<notin> ct" using a by simp
    have r1: "run S (the (choice_Next choice)) (startX + int index * HORIZONTAL_SPACING) nextY
             (push_edge (choiceEdge stateName index (the (choice_Next choice)) (choiceLabel choice)) st) (cy, st2)"
      using "3.IH"(1)[OF acc[symmetric] refl a12 a(3) ps] .
    have r2: "runChoices S stateName startX nextY (Suc index) rest
                    (insert (the (choice_Next choice)) ct, max mx cy, st2) r'"
      using "3.IH"(2)[OF acc[symmetric] refl a12 a(3) ps refl pc] .
    show ?thesis unfolding acc using run_runChoices.choices_call[OF a r1 r2] .
  next
    case b
    with eq acc have
      pc: "processChoices S stateName startX nextY (Suc index) rest
                    (insert (the (choice_Next choice)) ct, mx,
                      push_edge (choiceEdge stateName index (the (choice_Next choice)) (choiceLabel choice)) st) = Some r'"
      by (auto split: option.splits)
    have a12: "truthy (choice_Next choice) \<and> the (choice_Next choice) \<notin> ct" using b by simp
    have b3: "\<not> the (choice_Next choice) \<notin> processedStates st" using b by simp
    have r2: "runChoices S stateName startX nextY (Suc index) rest
                    (insert (the (choice_Next choice)) ct, mx,
                      push_edge (choiceEdge stateName index (the (choice_Next choice)) (choiceLabel choice)) st) r'"
      using "3.IH"(3)[OF acc[symmetric] refl a12 b3 pc] .
    show ?thesis unfolding acc using run_runChoices.choices_seen[OF b r2] .
  next
    case c
    with eq acc have pc: "processChoices S stateName startX nextY (Suc index) rest acc = Some r'"
      by (auto split: option.splits)
    have r2: "runChoices S stateName startX nextY (Suc index) rest acc r'"
      using "3.IH"(4)[OF acc[symmetric] refl c pc] .
    show ?thesis using run_runChoices.choices_skip[OF c] r2 unfolding acc by simp
  qed
qed




lemma total: "processState_processChoices_dom z"
proof (rule "processState_processChoices.termination"[of "inv_image (less_than <*lex*> less_than) call_measure", rule_format], goal_cases)
  case 1
  show ?case by (intro wf_inv_image wf_lex_prod wf_less_than)
next
  case (2 S stateName x y st s st1 ny r my st2)
  have pb: "processBranches stateName (parallelStartX x (the (Branches s))) ny 0
              (the (Branches s)) (ny, st1) = Some (my, st2)"
    using 2(6) 2(7) by simp
  have "processedStates st2 = processedStates st1"
    using processBranches_processed[OF pb] by simp
  then have sub: "insert stateName (processedStates st) \<subseteq> processedStates
        (connectBranchEnds stateName (the (Next s)) 0 (the (Branches s)) st2)"
    by (simp add: 2(3))
  have "unprocessed S (connectBranchEnds stateName (the (Next s)) 0 (the (Branches s)) st2)
          < unprocessed S st"
    using 2(1) sub by (intro unprocessed_less[of S stateName]) blast+
  then show ?case by (simp add: call_measure_def)
next
  case (3 S stateName x y st s st1 ny)
  have sub: "insert stateName (processedStates st) \<subseteq> processedStates st1"
    by (simp add: 3(3))
  have "unprocessed S st1 < unprocessed S st"
    using 3(1) sub by (intro unprocessed_less[of S stateName]) blast+
  then show ?case by (simp add: call_measure_def)
next
  case (4 S stateName x y st s st1 ny r ct r2 my st2)
  have r: "r = (ct, my, st2)" using 4(8) 4(9) by simp
  have "runChoices S stateName (choiceStartX x s) ny 0 (the (Choices s)) ({}, ny, st1) r"
    using dom_run(2)[OF 4(12) 4(7)] .
  from run_mono(2)[OF this] have "processedStates st1 \<subseteq> processedStates st2"
    by (simp add: r)
  then have sub: "insert stateName (processedStates st) \<subseteq> processedStates
       (push_edge (defaultEdge stateName (the (Default s))) st2)"
    by (simp add: 4(3))
  have "unprocessed S (push_edge (defaultEdge stateName (the (Default s))) st2) < unprocessed S st"
    using 4(1) sub by (intro unprocessed_less[of S stateName]) blast+
  then show ?case by (simp add: call_measure_def)
next
  case (5 S stateName x y st s st1 ny st2)
  have "processedStates st1 \<subseteq> processedStates st2"
    unfolding 5(7) by (rule catchPhase_processed)
  then have sub: "insert stateName (processedStates st) \<subseteq> processedStates
       (push_edge (nextEdge stateName (the (Next s))) st2)"
    by (simp add: 5(3))
  have "unprocessed S (push_edge (nextEdge stateName (the (Next s))) st2) < unprocessed S st"
    using 5(1) sub by (intro unprocessed_less[of S stateName]) blast+
  then show ?case by (simp add: call_measure_def)
next
  case (6 S stateName startX nextY index choice rest acc ct r2 my st)
  have acc: "acc = (ct, my, st)" using 6(1) 6(2) by simp
  show ?case by (simp add: call_measure_def acc unprocessed_def)
next
  case (7 S stateName startX nextY index choice rest acc ct r2 my st r cy st2)
  have acc: "acc = (ct, my, st)" using 7(1) 7(2) by simp
  have r: "r = (cy, st2)" using 7(6) by simp
  have "run S (the (choice_Next choice)) (startX + int index * HORIZONTAL_SPACING) nextY
          (push_edge (choiceEdge stateName index (the (choice_Next choice)) (choiceLabel choice)) st) r"
    using dom_run(1)[OF 7(7) 7(5)] .
  from run_mono(1)[OF this] have "processedStates st \<subseteq> processedStates st2"
    by (simp add: r)
  then have "unprocessed S st2 \<le> unprocessed S st" by (rule unprocessed_mono)
  then show ?case by (simp add: call_measure_def acc) arith
next
  case (8 S stateName startX nextY index choice rest acc ct r2 my st)
  have acc: "acc = (ct, my, st)" using 8(1) 8(2) by simp
  show ?case by (simp add: call_measure_def acc unprocessed_def)
next
  case (9 S stateName startX nextY index choice rest acc ct r2 my st)
  show ?case by (cases acc) (simp add: call_measure_def)
qed

termination processState
  using total by blast

declare processState.simps [simp del]

lemma processState_run:
  "processState S name x y st = Some r \<Longrightarrow> run S name x y st r"
  by (rule dom_run(1)[OF total])


section \<open>Malformed input\<close>

lemma processState_skip:
  "stateName \<in> processedStates st \<or> getProp states stateName = None
   \<Longrightarrow> processState states stateName x y st = Some (y, st)"
  by (simp add: processState.simps)

text \<open>
  C3, as stated, fails: for a start state that is named but is not a key of a non-empty
  states object the call does not return the empty graph. The guard only tests
  \<^verbatim>\<open>!startAt || Object.keys(states).length === 0\<close>; the Start node and the entry edge
  are created before the first state is looked up.
\<close>

theorem malformed_input_counterexample:
  "parseStateMachine (\<lambda>s. None) (Object danglingStart)
     = Some (Inr \<lparr>nodes = [startNode 0], edges = [startEdge ''X'']\<rparr>)
   \<and> parseStateMachine (\<lambda>s. None) (Object danglingStart) \<noteq> Some (Inr emptyGraph)"
  by (simp add: parseStateMachine_def layoutValue_def layoutDefinition_def danglingStart_def
      truthy_def processState_skip getProp_def inheritedKeys_def initialState_def emptyGraph_def)

text \<open>
  C3, amended: the call returns the empty graph, and raises nothing, for a string that
  \<^verbatim>\<open>JSON.parse\<close> rejects, for \<^verbatim>\<open>undefined\<close> (whose text \<^verbatim>\<open>JSON.parse\<close> rejects), and for a
  definition whose states object is empty or whose start state is missing or the empty
  string. For a start state that is named but that the lookup \<^verbatim>\<open>states[startAt]\<close> does
  not find in a non-empty states object (it is neither a key of the object nor a name
  the object inherits from \<^verbatim>\<open>Object.prototype\<close>, such as \<^verbatim>\<open>toString\<close>) it returns the
  graph made of the Start node and the entry edge alone.
\<close>

theorem malformed_input:
  "(JSON_parse s = None \<longrightarrow> parseStateMachine JSON_parse (Text s) = Some (Inr emptyGraph))
   \<and> (JSON_parse ''undefined'' = None \<longrightarrow>
        parseStateMachine JSON_parse Undefined = Some (Inr emptyGraph))
   \<and> (\<not> truthy (StartAt d) \<or> States d = [] \<longrightarrow>
        parseStateMachine JSON_parse (Object d) = Some (Inr emptyGraph))
   \<and> (truthy (StartAt d) \<and> States d \<noteq> [] \<and> getProp (States d) (the (StartAt d)) = None \<longrightarrow>
        parseStateMachine JSON_parse (Object d)
          = Some (Inr \<lparr>nodes = [startNode 0], edges = [startEdge (the (StartAt d))]\<rparr>))"
  by (simp add: parseStateMachine_def layoutValue_def layoutDefinition_def processState_skip
      initialState_def)

theorem malformed_input_witness:
  "(\<lambda>s. None) ''{not json'' = None
   \<and> parseStateMachine (\<lambda>s. None) (Text ''{not json'') = Some (Inr emptyGraph)
   \<and> (\<lambda>s. None) ''undefined'' = None
   \<and> parseStateMachine (\<lambda>s. None) Undefined = Some (Inr emptyGraph)
   \<and> States (Definition (Some ''X'') []) = []
   \<and> parseStateMachine (\<lambda>s. None) (Object (Definition (Some ''X'') [])) = Some (Inr emptyGraph)
   \<and> truthy (StartAt danglingStart) \<and> States danglingStart \<noteq> []
   \<and> getProp (States danglingStart) (the (StartAt danglingStart)) = None
   \<and> parseStateMachine (\<lambda>s. None) (Object danglingStart)
       = Some (Inr \<lparr>nodes = [startNode 0], edges = [startEdge ''X'']\<rparr>)"
proof -
  have h1: "(\<lambda>s::string. None::jsinput option) ''{not json'' = None" by simp
  have h2: "(\<lambda>s::string. None::jsinput option) ''undefined'' = None" by simp
  have h3: "States (Definition (Some ''X'') []) = []" by simp
  have h4: "truthy (StartAt danglingStart) \<and> States danglingStart \<noteq> []
     \<and> getProp (States danglingStart) (the (StartAt danglingStart)) = None"
    by (simp add: danglingStart_def truthy_def getProp_def inheritedKeys_def)
  have s: "the (StartAt danglingStart) = ''X''" by (simp add: danglingStart_def)
  show ?thesis
    using h1 h2 h3 h4
      malformed_input [of "\<lambda>s. None" "''{not json''" "Definition (Some ''X'') []"]
      malformed_input [of "\<lambda>s. None" "''{not json''" danglingStart]
    by (simp add: s)
qed

section \<open>A cycle inside a branch\<close>

lemma walkBranch_cycle_aux:
  assumes "walkBranch bs n i bx cur prev by st = Some r"
  shows "bs = cycleStates \<longrightarrow> cur = cycleA \<or> cur = cycleB \<longrightarrow> False"
proof (rule walkBranch.raw_induct[where P = "\<lambda>bs n i bx cur prev by st r.
        bs = cycleStates \<longrightarrow> cur = cycleA \<or> cur = cycleB \<longrightarrow> False", OF _ assms], intro impI)
  fix f bs n i bx cur prev "by" st and r :: "string \<times> int \<times> lstate"
  assume IH: "\<And>bs n i bx cur prev by st r. f bs n i bx cur prev by st = Some r \<Longrightarrow>
                bs = cycleStates \<longrightarrow> cur = cycleA \<or> cur = cycleB \<longrightarrow> False"
    and eq: "(if truthy (Next cur) then
        (case getProp bs (the (Next cur)) of
           None \<Rightarrow> Some (prev, by, st)
         | Some nextState \<Rightarrow>
             f bs n i bx nextState (branchId n i (the (Next cur))) (by + VERTICAL_SPACING)
               (set_position (branchId n i (the (Next cur))) (JPoint bx by)
                  (push_edge (branchStepEdge prev (branchId n i (the (Next cur))))
                     (push_node (branchNode (branchId n i (the (Next cur)))
                          (the (Next cur)) bx by nextState) st))))
      else Some (prev, by, st)) = Some r"
    and bs: "bs = cycleStates" and cur: "cur = cycleA \<or> cur = cycleB"
  have gA: "getProp cycleStates ''A'' = Some cycleA" and gB: "getProp cycleStates ''B'' = Some cycleB"
    by (simp_all add: getProp_def cycleStates_def)
  from cur show False
  proof
    assume c: "cur = cycleA"
    have "f bs n i bx cycleB (branchId n i ''B'') (by + VERTICAL_SPACING)
               (set_position (branchId n i ''B'') (JPoint bx by)
                  (push_edge (branchStepEdge prev (branchId n i ''B''))
                     (push_node (branchNode (branchId n i ''B'') ''B'' bx by cycleB) st))) = Some r"
      using eq by (simp add: c bs cycleA_def truthy_def gB)
    from IH[OF this] bs show False by simp
  next
    assume c: "cur = cycleB"
    have "f bs n i bx cycleA (branchId n i ''A'') (by + VERTICAL_SPACING)
               (set_position (branchId n i ''A'') (JPoint bx by)
                  (push_edge (branchStepEdge prev (branchId n i ''A''))
                     (push_node (branchNode (branchId n i ''A'') ''A'' bx by cycleA) st))) = Some r"
      using eq by (simp add: c bs cycleB_def truthy_def gA)
    from IH[OF this] bs show False by simp
  qed
qed

lemma walkBranch_cycle:
  "walkBranch cycleStates n i bx cycleA prev by st = None"
  using walkBranch_cycle_aux[of cycleStates n i bx cycleA prev "by" st]
  by (cases "walkBranch cycleStates n i bx cycleA prev by st") auto

lemma processBranch_cycle:
  "processBranch ''P'' sx ny 0 (Definition (Some ''A'') cycleStates) acc = None"
proof -
  have g: "getProp cycleStates ''A'' = Some cycleA"
    by (simp add: getProp_def cycleStates_def)
  show ?thesis
    by (cases acc) (simp add: processBranch_def truthy_def g walkBranch_cycle)
qed

text \<open>
  C2 at its failing input: with a cycle inside a branch's \<^verbatim>\<open>Next\<close> chain the call never
  returns. The main traversal is guarded by \<^verbatim>\<open>processedStates\<close> and its recursion is
  total, as proved above; the branch loop has no such guard.
\<close>

theorem branch_cycle_never_returns:
  "parseStateMachine JSON_parse (Object branchCycle) = None"
proof -
  have pb: "processBranches ''P'' sx ny 0 [Definition (Some ''A'') cycleStates] acc = None" for sx ny acc
    by (simp add: processBranch_cycle)
  have g: "getProp (States branchCycle) ''P'' = Some (StateSpec (Some ''Parallel'') None True None None None
               (Some [Definition (Some ''A'') cycleStates]))"
    by (simp add: getProp_def branchCycle_def)
  have "processState (States branchCycle) ''P'' 0 (0 + VERTICAL_SPACING) (initialState ''P'') = None"
    by (subst processState.simps) (simp add: g initialState_def processBranch_cycle Let_def)
  then show ?thesis
    by (simp add: parseStateMachine_def layoutValue_def layoutDefinition_def truthy_def)
       (simp add: branchCycle_def)
qed

section \<open>The end flag on a Parallel state\<close>

text \<open>
  C9 at its failing input. The \<^verbatim>\<open>if (state.End)\<close> block sits in the branch for regular
  states; the branch taken for a Parallel state with branches reads \<^verbatim>\<open>state.Next\<close> but
  never \<^verbatim>\<open>state.End\<close>. A Parallel state with the end flag gets neither an End node nor an
  exit edge, where a Task state with the flag gets both.
\<close>

theorem parallel_end_no_marker:
  "(case parseStateMachine (\<lambda>s. None) (Object parallelEnd) of
      Some (Inr g) \<Rightarrow>
        map node_id (nodes g) = [''__START__'', ''P'', ''P_branch_0_A'']
        \<and> map (\<lambda>e. (source e, target e)) (edges g)
             = [(JString ''__START__'', ''P''), (JString ''P'', ''P_branch_0_A'')]
    | _ \<Rightarrow> False)
   \<and> (case parseStateMachine (\<lambda>s. None) (Object taskEnd) of
      Some (Inr g) \<Rightarrow>
        map node_id (nodes g) = [''__START__'', ''T'', ''__END_T__'']
        \<and> map (\<lambda>e. (source e, target e)) (edges g)
             = [(JString ''__START__'', ''T''), (JString ''T'', ''__END_T__'')]
    | _ \<Rightarrow> False)"
  by code_simp

section \<open>Invariants of the traversal\<close>

subsection \<open>Fields of the working state under the elementary updates\<close>

lemma push_node_fields [simp]:
  "nodes (push_node n st) = nodes st @ [n]"
  "edges (push_node n st) = edges st"
  "nodePositions (push_node n st) = nodePositions st"
  by (simp_all add: push_node_def)

lemma push_edge_fields [simp]:
  "nodes (push_edge e st) = nodes st"
  "edges (push_edge e st) = edges st @ [e]"
  "nodePositions (push_edge e st) = nodePositions st"
  by (simp_all add: push_edge_def)

lemma set_position_fields [simp]:
  "nodes (set_position k v st) = nodes st"
  "edges (set_position k v st) = edges st"
  "nodePositions (set_position k v st) = (nodePositions st)(k \<mapsto> v)"
  by (simp_all add: set_position_def)

lemma add_processed_fields [simp]:
  "nodes (add_processed k st) = nodes st"
  "edges (add_processed k st) = edges st"
  "nodePositions (add_processed k st) = nodePositions st"
  by (simp_all add: add_processed_def)

lemma visitState_fields [simp]:
  "nodes (visitState n x y s st) = nodes st @ [stateNode n x y s]"
  "edges (visitState n x y s st) = edges st"
  "nodePositions (visitState n x y s st) = (nodePositions st)(n \<mapsto> JPoint x y)"
  by (simp_all add: visitState_def)

lemma finishState_fields:
  "nodes (snd (finishState n x s r)) =
     (if End s then nodes (snd r) @ [endNode (''__END_'' @ n @ ''__'') x (fst r)] else nodes (snd r))"
  "edges (snd (finishState n x s r)) =
     (if End s then edges (snd r) @ [endEdge n (''__END_'' @ n @ ''__'')] else edges (snd r))"
  "nodePositions (snd (finishState n x s r)) = nodePositions (snd r)"
  by (simp_all add: finishState_def split: prod.splits)

lemma dispatch_cases:
  obtains (parallel) "isParallel s" | (choice) "\<not> isParallel s" "isChoice s" | (regular) "isRegular s"
  unfolding isRegular_def by blast

subsection \<open>A rule for invariants of the traversal\<close>

lemma run_invariant:
  fixes I :: "lstate \<Rightarrow> bool" and G :: "string \<Rightarrow> bool"
  assumes G_step: "\<And>n s t. \<lbrakk>G n; getProp S n = Some s; t \<in> followed s\<rbrakk> \<Longrightarrow> G t"
    and par: "\<And>n s bs x y st my st2.
        \<lbrakk>G n; I st; n \<notin> processedStates st; getProp S n = Some s; isParallel s;
         Branches s = Some bs;
         processBranches n (parallelStartX x bs) (y + VERTICAL_SPACING) 0 bs
           (y + VERTICAL_SPACING, visitState n x y s st) = Some (my, st2)\<rbrakk> \<Longrightarrow> I st2"
    and con: "\<And>n s bs st.
        \<lbrakk>G n; I st; n \<in> processedStates st; getProp S n = Some s; isParallel s;
         Branches s = Some bs; truthy (Next s)\<rbrakk>
        \<Longrightarrow> I (connectBranchEnds n (the (Next s)) 0 bs st)"
    and cho: "\<And>n s x y st.
        \<lbrakk>G n; I st; n \<notin> processedStates st; getProp S n = Some s; \<not> isParallel s; isChoice s\<rbrakk>
        \<Longrightarrow> I (visitState n x y s st)"
    and ced: "\<And>n s i c st.
        \<lbrakk>G n; I st; n \<in> processedStates st; getProp S n = Some s; \<not> isParallel s; isChoice s;
         c \<in> set (the (Choices s)); truthy (choice_Next c)\<rbrakk>
        \<Longrightarrow> I (push_edge (choiceEdge n i (the (choice_Next c)) (choiceLabel c)) st)"
    and ded: "\<And>n s st.
        \<lbrakk>G n; I st; n \<in> processedStates st; getProp S n = Some s; \<not> isParallel s; isChoice s;
         truthy (Default s)\<rbrakk>
        \<Longrightarrow> I (push_edge (defaultEdge n (the (Default s))) st)"
    and reg: "\<And>n s x y st.
        \<lbrakk>G n; I st; n \<notin> processedStates st; getProp S n = Some s; isRegular s\<rbrakk>
        \<Longrightarrow> I (catchPhase S n x y s (visitState n x y s st))"
    and ned: "\<And>n s st.
        \<lbrakk>G n; I st; n \<in> processedStates st; getProp S n = Some s; isRegular s; truthy (Next s)\<rbrakk>
        \<Longrightarrow> I (push_edge (nextEdge n (the (Next s))) st)"
    and fin: "\<And>n s x r.
        \<lbrakk>G n; I (snd r); n \<in> processedStates (snd r); getProp S n = Some s; isRegular s\<rbrakk>
        \<Longrightarrow> I (snd (finishState n x s r))"
  shows "run S name x y st r \<Longrightarrow> G name \<Longrightarrow> I st \<Longrightarrow> I (snd r)"
    and "runChoices S name sx ny i cs acc r' \<Longrightarrow>
          G name \<and> name \<in> processedStates (snd (snd acc)) \<and> I (snd (snd acc))
          \<and> (\<exists>s. getProp S name = Some s \<and> \<not> isParallel s \<and> isChoice s \<and> set cs \<subseteq> set (the (Choices s)))
          \<longrightarrow> I (snd (snd r'))"
proof (induction rule: run_runChoices.inducts)
  case (skip stateName st x y)
  then show ?case by simp
next
  case (parallel_next stateName st s bs x y maxBranchY st2 r)
  from parallel_next have np: "stateName \<notin> processedStates st"
    and gp: "getProp S stateName = Some s" and bs: "Branches s = Some bs"
    and pb: "processBranches stateName (parallelStartX x bs) (y + VERTICAL_SPACING) 0 bs
               (y + VERTICAL_SPACING, visitState stateName x y s st) = Some (maxBranchY, st2)"
    and tn: "truthy (Next s)" and G: "G stateName" and I: "I st"
    and ip: "isParallel s"
    and IH: "\<lbrakk>G (the (Next s)); I (connectBranchEnds stateName (the (Next s)) 0 bs st2)\<rbrakk> \<Longrightarrow> I (snd r)"
    by (simp_all add: isParallel_def)
  have i2: "I st2" using par[OF G I np gp ip bs pb] .
  have "processedStates st2 = insert stateName (processedStates st)"
    using processBranches_processed[OF pb] by simp
  then have p2: "stateName \<in> processedStates st2" by simp
  have "the (Next s) \<in> followed s" using tn ip
    by (auto simp: followed_def isParallel_def isChoice_def)
  then have g: "G (the (Next s))" using G_step[OF G gp] by simp
  show ?case using IH[OF g con[OF G i2 p2 gp ip bs tn]] .
next
  case (parallel_last stateName st s bs x y maxBranchY st2)
  from parallel_last have np: "stateName \<notin> processedStates st"
    and gp: "getProp S stateName = Some s" and bs: "Branches s = Some bs"
    and pb: "processBranches stateName (parallelStartX x bs) (y + VERTICAL_SPACING) 0 bs
               (y + VERTICAL_SPACING, visitState stateName x y s st) = Some (maxBranchY, st2)"
    and G: "G stateName" and I: "I st" and ip: "isParallel s"
    by (simp_all add: isParallel_def)
  show ?case using par[OF G I np gp ip bs pb] by simp
next
  case (choice_default stateName st s cs x y choiceTargets maxChoiceY st2 defaultY st4)
  from choice_default have np: "stateName \<notin> processedStates st"
    and gp: "getProp S stateName = Some s" and cs: "Choices s = Some cs"
    and rc: "runChoices S stateName (choiceStartX x s) (y + VERTICAL_SPACING) 0 cs
        ({}, y + VERTICAL_SPACING, visitState stateName x y s st) (choiceTargets, maxChoiceY, st2)"
    and td: "truthy (Default s)" and G: "G stateName" and I: "I st"
    and ic: "\<not> isParallel s" "isChoice s"
    and IH1: "G stateName \<and> stateName \<in> processedStates (snd (snd ({}::string set, y + VERTICAL_SPACING, visitState stateName x y s st)))
          \<and> I (snd (snd ({}::string set, y + VERTICAL_SPACING, visitState stateName x y s st)))
          \<and> (\<exists>s. getProp S stateName = Some s \<and> \<not> isParallel s \<and> isChoice s \<and> set cs \<subseteq> set (the (Choices s)))
          \<longrightarrow> I (snd (snd (choiceTargets, maxChoiceY, st2)))"
    and IH2: "\<lbrakk>G (the (Default s)); I (push_edge (defaultEdge stateName (the (Default s))) st2)\<rbrakk> \<Longrightarrow> I (snd (defaultY, st4))"
    by (simp_all add: isParallel_def isChoice_def)
  have i1: "I (visitState stateName x y s st)" using cho[OF G I np gp ic] .
  have i2: "I st2" using IH1 G i1 gp cs ic by auto
  have "processedStates (visitState stateName x y s st) \<subseteq> processedStates st2"
    using run_mono(2)[OF rc] by simp
  then have p2: "stateName \<in> processedStates st2" by simp
  have "the (Default s) \<in> followed s" using td ic by (auto simp: followed_def)
  then have g: "G (the (Default s))" using G_step[OF G gp] by simp
  show ?case using IH2[OF g ded[OF G i2 p2 gp ic td]] by simp
next
  case (choice_default_seen stateName st s cs x y choiceTargets maxChoiceY st2)
  from choice_default_seen have np: "stateName \<notin> processedStates st"
    and gp: "getProp S stateName = Some s" and cs: "Choices s = Some cs"
    and rc: "runChoices S stateName (choiceStartX x s) (y + VERTICAL_SPACING) 0 cs
        ({}, y + VERTICAL_SPACING, visitState stateName x y s st) (choiceTargets, maxChoiceY, st2)"
    and td: "truthy (Default s)" and G: "G stateName" and I: "I st"
    and ic: "\<not> isParallel s" "isChoice s"
    and IH1: "G stateName \<and> stateName \<in> processedStates (snd (snd ({}::string set, y + VERTICAL_SPACING, visitState stateName x y s st)))
          \<and> I (snd (snd ({}::string set, y + VERTICAL_SPACING, visitState stateName x y s st)))
          \<and> (\<exists>s. getProp S stateName = Some s \<and> \<not> isParallel s \<and> isChoice s \<and> set cs \<subseteq> set (the (Choices s)))
          \<longrightarrow> I (snd (snd (choiceTargets, maxChoiceY, st2)))"
    by (simp_all add: isParallel_def isChoice_def)
  have i1: "I (visitState stateName x y s st)" using cho[OF G I np gp ic] .
  have i2: "I st2" using IH1 G i1 gp cs ic by auto
  have "processedStates (visitState stateName x y s st) \<subseteq> processedStates st2"
    using run_mono(2)[OF rc] by simp
  then have p2: "stateName \<in> processedStates st2" by simp
  show ?case using ded[OF G i2 p2 gp ic td] by simp
next
  case (choice_no_default stateName st s cs x y choiceTargets maxChoiceY st2)
  from choice_no_default have np: "stateName \<notin> processedStates st"
    and gp: "getProp S stateName = Some s" and cs: "Choices s = Some cs"
    and G: "G stateName" and I: "I st"
    and ic: "\<not> isParallel s" "isChoice s"
    and IH1: "G stateName \<and> stateName \<in> processedStates (snd (snd ({}::string set, y + VERTICAL_SPACING, visitState stateName x y s st)))
          \<and> I (snd (snd ({}::string set, y + VERTICAL_SPACING, visitState stateName x y s st)))
          \<and> (\<exists>s. getProp S stateName = Some s \<and> \<not> isParallel s \<and> isChoice s \<and> set cs \<subseteq> set (the (Choices s)))
          \<longrightarrow> I (snd (snd (choiceTargets, maxChoiceY, st2)))"
    by (simp_all add: isParallel_def isChoice_def)
  have i1: "I (visitState stateName x y s st)" using cho[OF G I np gp ic] .
  show ?case using IH1 G i1 gp cs ic by auto
next
  case (regular_next stateName st s st2 x y r)
  from regular_next have np: "stateName \<notin> processedStates st"
    and gp: "getProp S stateName = Some s"
    and st2: "st2 = catchPhase S stateName x y s (visitState stateName x y s st)"
    and tn: "truthy (Next s)" and G: "G stateName" and I: "I st"
    and ir: "isRegular s"
    and rn: "run S (the (Next s)) x (y + VERTICAL_SPACING) (push_edge (nextEdge stateName (the (Next s))) st2) r"
    and IH: "\<lbrakk>G (the (Next s)); I (push_edge (nextEdge stateName (the (Next s))) st2)\<rbrakk> \<Longrightarrow> I (snd r)"
    by (simp_all add: isRegular_def isParallel_def isChoice_def)
  have i2: "I st2" unfolding st2 using reg[OF G I np gp ir] .
  have p2: "stateName \<in> processedStates st2" unfolding st2
    using catchPhase_processed[of "visitState stateName x y s st" S stateName x y s] by auto
  have "the (Next s) \<in> followed s" using tn ir by (auto simp: followed_def isRegular_def)
  then have g: "G (the (Next s))" using G_step[OF G gp] by simp
  have i3: "I (snd r)" using IH[OF g ned[OF G i2 p2 gp ir tn]] .
  have "stateName \<in> processedStates (snd r)" using run_mono(1)[OF rn] p2 by auto
  then show ?case using fin[OF G i3 _ gp ir] by simp
next
  case (regular_next_seen stateName st s st2 x y)
  from regular_next_seen have np: "stateName \<notin> processedStates st"
    and gp: "getProp S stateName = Some s"
    and st2: "st2 = catchPhase S stateName x y s (visitState stateName x y s st)"
    and tn: "truthy (Next s)" and G: "G stateName" and I: "I st"
    and ir: "isRegular s"
    by (simp_all add: isRegular_def isParallel_def isChoice_def)
  have i2: "I st2" unfolding st2 using reg[OF G I np gp ir] .
  have p2: "stateName \<in> processedStates st2" unfolding st2
    using catchPhase_processed[of "visitState stateName x y s st" S stateName x y s] by auto
  have i3: "I (push_edge (nextEdge stateName (the (Next s))) st2)"
    using ned[OF G i2 p2 gp ir tn] .
  show ?case
    using fin[OF G, of "(y + VERTICAL_SPACING, push_edge (nextEdge stateName (the (Next s))) st2)" s x]
      i3 p2 gp ir by simp
next
  case (regular_last stateName st s st2 x y)
  from regular_last have np: "stateName \<notin> processedStates st"
    and gp: "getProp S stateName = Some s"
    and st2: "st2 = catchPhase S stateName x y s (visitState stateName x y s st)"
    and G: "G stateName" and I: "I st"
    and ir: "isRegular s"
    by (simp_all add: isRegular_def isParallel_def isChoice_def)
  have i2: "I st2" unfolding st2 using reg[OF G I np gp ir] .
  have p2: "stateName \<in> processedStates st2" unfolding st2
    using catchPhase_processed[of "visitState stateName x y s st" S stateName x y s] by auto
  show ?case using fin[OF G, of "(y + VERTICAL_SPACING, st2)" s x] i2 p2 gp ir by simp
next
  case (choices_nil stateName startX nextY index acc)
  then show ?case by simp
next
  case (choices_call choice choiceTargets st startX index nextY stateName choiceY st2 rest maxChoiceY r)
  from choices_call have tc: "truthy (choice_Next choice)"
    and r1: "run S (the (choice_Next choice)) (startX + int index * HORIZONTAL_SPACING) nextY
        (push_edge (choiceEdge stateName index (the (choice_Next choice)) (choiceLabel choice)) st)
        (choiceY, st2)"
    and IH1: "\<lbrakk>G (the (choice_Next choice));
        I (push_edge (choiceEdge stateName index (the (choice_Next choice)) (choiceLabel choice)) st)\<rbrakk>
        \<Longrightarrow> I (snd (choiceY, st2))"
    and IH2: "G stateName \<and> stateName \<in> processedStates (snd (snd (insert (the (choice_Next choice)) choiceTargets, max maxChoiceY choiceY, st2)))
          \<and> I (snd (snd (insert (the (choice_Next choice)) choiceTargets, max maxChoiceY choiceY, st2)))
          \<and> (\<exists>s. getProp S stateName = Some s \<and> \<not> isParallel s \<and> isChoice s \<and> set rest \<subseteq> set (the (Choices s)))
          \<longrightarrow> I (snd (snd r))"
    by simp_all
  show ?case
  proof (intro impI, elim conjE exE)
    fix s
    assume h: "G stateName" "stateName \<in> processedStates (snd (snd (choiceTargets, maxChoiceY, st)))"
      "I (snd (snd (choiceTargets, maxChoiceY, st)))" "getProp S stateName = Some s"
      "\<not> isParallel s" "isChoice s" "set (choice # rest) \<subseteq> set (the (Choices s))"
    have c: "choice \<in> set (the (Choices s))" using h(7) by simp
    have "the (choice_Next choice) \<in> followed s" using c tc h(6)
      by (auto simp: followed_def)
    then have g: "G (the (choice_Next choice))" using G_step[OF h(1) h(4)] by simp
    have i1: "I (push_edge (choiceEdge stateName index (the (choice_Next choice)) (choiceLabel choice)) st)"
      using ced[OF h(1) _ _ h(4,5,6) c tc] h(2,3) by simp
    have i2: "I st2" using IH1[OF g i1] by simp
    have p2: "stateName \<in> processedStates st2" using run_mono(1)[OF r1] h(2) by auto
    show "I (snd (snd r))" using IH2 h i2 p2 by auto
  qed
next
  case (choices_seen choice choiceTargets st stateName startX nextY index rest maxChoiceY r)
  from choices_seen have tc: "truthy (choice_Next choice)"
    and IH: "G stateName \<and> stateName \<in> processedStates (snd (snd (insert (the (choice_Next choice)) choiceTargets, maxChoiceY,
                push_edge (choiceEdge stateName index (the (choice_Next choice)) (choiceLabel choice)) st)))
          \<and> I (snd (snd (insert (the (choice_Next choice)) choiceTargets, maxChoiceY,
                push_edge (choiceEdge stateName index (the (choice_Next choice)) (choiceLabel choice)) st)))
          \<and> (\<exists>s. getProp S stateName = Some s \<and> \<not> isParallel s \<and> isChoice s \<and> set rest \<subseteq> set (the (Choices s)))
          \<longrightarrow> I (snd (snd r))"
    by simp_all
  show ?case
  proof (intro impI, elim conjE exE)
    fix s
    assume h: "G stateName" "stateName \<in> processedStates (snd (snd (choiceTargets, maxChoiceY, st)))"
      "I (snd (snd (choiceTargets, maxChoiceY, st)))" "getProp S stateName = Some s"
      "\<not> isParallel s" "isChoice s" "set (choice # rest) \<subseteq> set (the (Choices s))"
    have c: "choice \<in> set (the (Choices s))" using h(7) by simp
    have i1: "I (push_edge (choiceEdge stateName index (the (choice_Next choice)) (choiceLabel choice)) st)"
      using ced[OF h(1) _ _ h(4,5,6) c tc] h(2,3) by simp
    show "I (snd (snd r))" using IH h i1 by auto
  qed
next
  case (choices_skip choice choiceTargets stateName startX nextY index rest maxChoiceY st r)
  then show ?case by auto
qed

subsection \<open>A rule for invariants of the branch layout\<close>

lemma walkBranch_invariant:
  assumes nxt: "\<And>st a b x y s. \<lbrakk>J st; branchId n i a \<in> nodeIds st\<rbrakk>
      \<Longrightarrow> J (branchStepState (branchStepEdge (branchId n i a) (branchId n i b))
                (branchId n i b) b x y s st)"
    and w: "walkBranch bs n i bx cur prev by st = Some r"
  shows "J st \<longrightarrow> (\<exists>a. prev = branchId n i a) \<and> prev \<in> nodeIds st
         \<longrightarrow> J (snd (snd r)) \<and> (\<exists>a. fst r = branchId n i a) \<and> fst r \<in> nodeIds (snd (snd r))"
proof -
  let ?P = "\<lambda>bs n' i' bx cur prev by st r. n' = n \<longrightarrow> i' = i \<longrightarrow> J st \<longrightarrow>
        (\<exists>a. prev = branchId n i a) \<and> prev \<in> nodeIds st
         \<longrightarrow> J (snd (snd r)) \<and> (\<exists>a. fst r = branchId n i a) \<and> fst r \<in> nodeIds (snd (snd r))"
  have "?P bs n i bx cur prev by st r"
  proof (rule walkBranch.raw_induct[where P = ?P, OF _ w], intro impI, elim conjE exE)
    fix f bs n' i' bx cur prev "by" st a and r :: "string \<times> int \<times> lstate"
    assume IH: "\<And>bs n' i' bx cur prev by st r. f bs n' i' bx cur prev by st = Some r \<Longrightarrow>
        n' = n \<longrightarrow> i' = i \<longrightarrow> J st \<longrightarrow>
        (\<exists>a. prev = branchId n i a) \<and> prev \<in> nodeIds st
         \<longrightarrow> J (snd (snd r)) \<and> (\<exists>a. fst r = branchId n i a) \<and> fst r \<in> nodeIds (snd (snd r))"
      and eq: "(if truthy (Next cur) then
        (case getProp bs (the (Next cur)) of
           None \<Rightarrow> Some (prev, by, st)
         | Some nextState \<Rightarrow>
             f bs n' i' bx nextState (branchId n' i' (the (Next cur))) (by + VERTICAL_SPACING)
               (set_position (branchId n' i' (the (Next cur))) (JPoint bx by)
                  (push_edge (branchStepEdge prev (branchId n' i' (the (Next cur))))
                     (push_node (branchNode (branchId n' i' (the (Next cur)))
                          (the (Next cur)) bx by nextState) st))))
      else Some (prev, by, st)) = Some r"
      and n: "n' = n" and i: "i' = i" and J: "J st" and prev: "prev = branchId n i a"
      and pin: "prev \<in> nodeIds st"
    show "J (snd (snd r)) \<and> (\<exists>a. fst r = branchId n i a) \<and> fst r \<in> nodeIds (snd (snd r))"
    proof (cases "truthy (Next cur) \<and> getProp bs (the (Next cur)) \<noteq> None")
      case False
      then have "r = (prev, by, st)" using eq by (auto split: option.splits if_splits)
      then show ?thesis using J prev pin by auto
    next
      case True
      then obtain nextState where g: "getProp bs (the (Next cur)) = Some nextState" by auto
      let ?b = "the (Next cur)"
      let ?st = "branchStepState (branchStepEdge (branchId n i a) (branchId n i ?b))
                (branchId n i ?b) ?b bx by nextState st"
      have call: "f bs n i bx nextState (branchId n i ?b) (by + VERTICAL_SPACING) ?st = Some r"
        using eq True g by (simp add: n i prev branchStepState_def)
      have J': "J ?st" using nxt[OF J] pin prev by simp
      have "branchId n i ?b \<in> nodeIds ?st"
        by (simp add: nodeIds_def branchStepState_def branchNode_def)
      with IH[OF call] J' show ?thesis by blast
    qed
  qed
  then show ?thesis by simp
qed

lemma processBranch_invariant:
  assumes first: "\<And>st b x y s. J st
      \<Longrightarrow> J (branchStepState (branchEdge n (branchId n i b)) (branchId n i b) b x y s st)"
    and nxt: "\<And>st a b x y s. \<lbrakk>J st; branchId n i a \<in> nodeIds st\<rbrakk>
      \<Longrightarrow> J (branchStepState (branchStepEdge (branchId n i a) (branchId n i b))
                (branchId n i b) b x y s st)"
    and fin: "\<And>st a. \<lbrakk>J st; branchId n i a \<in> nodeIds st\<rbrakk>
      \<Longrightarrow> J (set_position (n @ ''_branch_'' @ string_of_nat i @ ''_end'')
                (JString (branchId n i a)) st)"
    and pb: "processBranch n sx ny i b (m, st) = Some (m', st')"
    and J: "J st"
  shows "J st'"
proof (cases "truthy (StartAt b) \<and> getProp (States b) (the (StartAt b)) \<noteq> None")
  case False
  then have "st' = st" using pb by (auto simp: processBranch_def)
  then show ?thesis using J by simp
next
  case True
  let ?a = "the (StartAt b)"
  let ?s = "the (getProp (States b) ?a)"
  let ?x = "sx + int i * PARALLEL_BRANCH_SPACING"
  let ?st = "branchStepState (branchEdge n (branchId n i ?a)) (branchId n i ?a) ?a ?x ny ?s st"
  from pb True obtain p y' st2 where
    w: "walkBranch (States b) n i ?x ?s (branchId n i ?a) (ny + VERTICAL_SPACING) ?st = Some (p, y', st2)"
    and st': "st' = set_position (n @ ''_branch_'' @ string_of_nat i @ ''_end'') (JString p) st2"
    by (auto simp: processBranch_def branchStepState_def split: option.splits)
  have J1: "J ?st" using first[OF J] .
  have in1: "branchId n i ?a \<in> nodeIds ?st"
    by (simp add: nodeIds_def branchStepState_def branchNode_def)
  from walkBranch_invariant[of J n i, OF nxt w] J1 in1
  have "J st2 \<and> (\<exists>a. p = branchId n i a) \<and> p \<in> nodeIds st2" by auto
  then show ?thesis unfolding st' using fin by blast
qed

lemma processBranches_invariant:
  assumes first: "\<And>st i b x y s. J st
      \<Longrightarrow> J (branchStepState (branchEdge n (branchId n i b)) (branchId n i b) b x y s st)"
    and nxt: "\<And>st i a b x y s. \<lbrakk>J st; branchId n i a \<in> nodeIds st\<rbrakk>
      \<Longrightarrow> J (branchStepState (branchStepEdge (branchId n i a) (branchId n i b))
                (branchId n i b) b x y s st)"
    and fin: "\<And>st i a. \<lbrakk>J st; branchId n i a \<in> nodeIds st\<rbrakk>
      \<Longrightarrow> J (set_position (n @ ''_branch_'' @ string_of_nat i @ ''_end'')
                (JString (branchId n i a)) st)"
  shows "processBranches n sx ny i bs (m, st) = Some (m', st') \<Longrightarrow> J st \<Longrightarrow> J st'"
proof (induction bs arbitrary: i m st)
  case Nil
  then show ?case by simp
next
  case (Cons b bs)
  from Cons.prems(1) obtain m1 st1 where
    pb: "processBranch n sx ny i b (m, st) = Some (m1, st1)"
    and rest: "processBranches n sx ny (Suc i) bs (m1, st1) = Some (m', st')"
    by (auto split: option.splits)
  have "J st1"
    using processBranch_invariant[of J n i, OF first nxt fin pb Cons.prems(2)] .
  then show ?case using Cons.IH[OF rest] by simp
qed

lemma connectBranchEnds_invariant:
  assumes "\<And>st k v. \<lbrakk>J st; nodePositions st k = Some v; js_truthy v\<rbrakk>
      \<Longrightarrow> J (push_edge (rejoinEdge v nx) st)"
  shows "J st \<Longrightarrow> J (connectBranchEnds n nx i bs st)"
proof (induction bs arbitrary: i st)
  case Nil
  then show ?case by simp
next
  case (Cons b bs)
  have "J (case nodePositions st (n @ ''_branch_'' @ string_of_nat i @ ''_end'') of
          None \<Rightarrow> st
        | Some lastBranchNode \<Rightarrow>
            if js_truthy lastBranchNode then push_edge (rejoinEdge lastBranchNode nx) st
            else st)"
    using Cons.prems assms by (auto split: option.splits)
  then show ?case using Cons.IH by simp
qed

lemma processCatch_invariant:
  assumes "\<And>st i c. \<lbrakk>J st; c \<in> set cs\<rbrakk> \<Longrightarrow> J (catchStep S n x y i c st)"
  shows "J st \<Longrightarrow> J (processCatch S n x y i cs st)"
  using assms
proof (induction cs arbitrary: i st)
  case Nil
  then show ?case by simp
next
  case (Cons c cs)
  have "J (catchStep S n x y i c st)" using Cons.prems by simp
  then show ?case using Cons.IH Cons.prems(2) by simp
qed

lemma catchPhase_invariant:
  assumes "\<And>st i c cs. \<lbrakk>J st; Catch s = Some cs; c \<in> set cs\<rbrakk> \<Longrightarrow> J (catchStep S n x y i c st)"
  shows "J st \<Longrightarrow> J (catchPhase S n x y s st)"
proof (cases "Catch s")
  case None
  then show "J st \<Longrightarrow> ?thesis" by (simp add: catchPhase_def)
next
  case (Some cs)
  assume "J st"
  then have "J (processCatch S n x y 0 cs st)"
    by (rule processCatch_invariant[where J = J, rotated]) (rule assms[OF _ Some])
  then show ?thesis by (simp add: catchPhase_def Some)
qed

subsection \<open>Each state has at most one node\<close>

lemma mainNode_simps [simp]:
  "mainNode (stateNode n x y s)" "mainNode (failNode n x y s)"
  "\<not> mainNode (branchNode i n x y s)" "\<not> mainNode (endNode i x y)" "\<not> mainNode (startNode y)"
  by (simp_all add: mainNode_def stateNode_def failNode_def branchNode_def endNode_def startNode_def)

lemma node_id_simps [simp]:
  "node_id (stateNode n x y s) = n" "node_id (failNode n x y s) = n"
  "node_id (branchNode i n x y s) = i" "node_id (endNode i x y) = i"
  "node_id (startNode y) = ''__START__''"
  by (simp_all add: stateNode_def failNode_def branchNode_def endNode_def startNode_def)

lemma mainIds_append [simp]: "mainIds (ns @ ms) = mainIds ns @ mainIds ms"
  by (simp add: mainIds_def)

lemma mainIds_single [simp]: "mainIds [n] = (if mainNode n then [node_id n] else [])"
  by (simp add: mainIds_def)

lemma mainIds_Nil [simp]: "mainIds [] = []"
  by (simp add: mainIds_def)

lemma uniqueMain_catchStep: "uniqueMain st \<Longrightarrow> uniqueMain (catchStep S n x y i c st)"
  by (auto simp: uniqueMain_def catchStep_def Let_def)

lemma uniqueMain_run:
  assumes "run S name x y st r" and "uniqueMain st"
  shows "uniqueMain (snd r)"
proof (rule run_invariant(1)[where G = "\<lambda>_. True" and I = uniqueMain, OF _ _ _ _ _ _ _ _ _ assms(1) TrueI assms(2)])
  fix n s bs x y st my st2
  assume "uniqueMain st" "n \<notin> processedStates st"
    and pb: "processBranches n (parallelStartX x bs) (y + VERTICAL_SPACING) 0 bs
           (y + VERTICAL_SPACING, visitState n x y s st) = Some (my, st2)"
  then have "uniqueMain (visitState n x y s st)" by (auto simp: uniqueMain_def)
  then show "uniqueMain st2"
    by (rule processBranches_invariant[where J = uniqueMain, OF _ _ _ pb, rotated 3])
       (auto simp: uniqueMain_def branchStepState_def)
next
  fix n s bs st
  assume "uniqueMain st"
  then show "uniqueMain (connectBranchEnds n (the (Next s)) 0 bs st)"
    by (rule connectBranchEnds_invariant[rotated]) (auto simp: uniqueMain_def)
next
  fix n s x y st
  assume "uniqueMain st" "n \<notin> processedStates st" "isRegular s"
  then have "uniqueMain (visitState n x y s st)" by (auto simp: uniqueMain_def)
  then show "uniqueMain (catchPhase S n x y s (visitState n x y s st))"
    by (rule catchPhase_invariant[rotated]) (rule uniqueMain_catchStep)
qed (auto simp: uniqueMain_def finishState_fields)

section \<open>The returned graph\<close>

lemma layoutDefinition_cases:
  assumes "layoutDefinition d = Some g"
  obtains (empty) "\<not> truthy (StartAt d) \<or> States d = []" "g = emptyGraph"
  | (laid) y st where "truthy (StartAt d)" "States d \<noteq> []"
      "run (States d) (the (StartAt d)) 0 (0 + VERTICAL_SPACING)
         (initialState (the (StartAt d))) (y, st)"
      "g = \<lparr>nodes = nodes st, edges = edges st\<rparr>"
proof (cases "\<not> truthy (StartAt d) \<or> States d = []")
  case True
  then have "g = emptyGraph" using assms by (auto simp: layoutDefinition_def)
  with True show ?thesis by (rule empty)
next
  case False
  with assms obtain y st where
    ps: "processState (States d) (the (StartAt d)) 0 (0 + VERTICAL_SPACING)
           (initialState (the (StartAt d))) = Some (y, st)"
    and g: "g = \<lparr>nodes = nodes st, edges = edges st\<rparr>"
    by (auto simp: layoutDefinition_def split: option.splits)
  from False processState_run[OF ps] g show ?thesis by (intro laid) auto
qed

lemma uniqueMain_initialState: "uniqueMain (initialState a)"
  by (simp add: uniqueMain_def initialState_def)

section \<open>States named only by catch rules\<close>

lemma not_processed_catchStep:
  assumes "getProp S s = Some sp" "Type sp \<noteq> Some ''Fail''" "s \<notin> processedStates st"
  shows "s \<notin> processedStates (catchStep S n x y i c st)"
  using assms by (auto simp: catchStep_def Let_def)

lemma not_processed_run:
  assumes r: "run S name x y st r"
    and sp: "getProp S s = Some sp" "Type sp \<noteq> Some ''Fail''"
    and refs: "\<forall>n q. getProp S n = Some q \<longrightarrow> s \<notin> followed q"
    and name: "name \<noteq> s" and st: "s \<notin> processedStates st"
  shows "s \<notin> processedStates (snd r)"
proof (rule run_invariant(1)[where G = "\<lambda>n. n \<noteq> s" and I = "\<lambda>st. s \<notin> processedStates st",
        OF _ _ _ _ _ _ _ _ _ r name st])
  fix n q t
  assume "n \<noteq> s" "getProp S n = Some q" "t \<in> followed q"
  then show "t \<noteq> s" using refs by blast
next
  fix n q bs x y my st2 and st :: lstate
  assume "n \<noteq> s" "s \<notin> processedStates st"
    and pb: "processBranches n (parallelStartX x bs) (y + VERTICAL_SPACING) 0 bs
           (y + VERTICAL_SPACING, visitState n x y q st) = Some (my, st2)"
  then show "s \<notin> processedStates st2" using processBranches_processed[OF pb] by simp
next
  fix n q x y and st :: lstate
  assume "n \<noteq> s" "s \<notin> processedStates st"
  then have "s \<notin> processedStates (visitState n x y q st)" by simp
  then show "s \<notin> processedStates (catchPhase S n x y q (visitState n x y q st))"
    by (rule catchPhase_invariant[rotated]) (rule not_processed_catchStep[OF sp])
qed (simp_all)

section \<open>The side lane of a Fail state reached by a catch rule\<close>













section \<open>Edge sources and targets\<close>

lemma nodeIds_simps [simp]:
  "nodeIds (push_node n st) = insert (node_id n) (nodeIds st)"
  "nodeIds (push_edge e st) = nodeIds st"
  "nodeIds (set_position k v st) = nodeIds st"
  "nodeIds (add_processed k st) = nodeIds st"
  "nodeIds (visitState a x y s st) = insert a (nodeIds st)"
  by (auto simp: nodeIds_def)

lemma edge_simps [simp]:
  "source (startEdge a) = JString ''__START__''" "target (startEdge a) = a"
  "source (branchEdge n b) = JString n" "target (branchEdge n b) = b"
  "source (branchStepEdge p b) = JString p" "target (branchStepEdge p b) = b"
  "source (rejoinEdge v t) = v" "target (rejoinEdge v t) = t"
  "source (choiceEdge n i t l) = JString n" "target (choiceEdge n i t l) = t"
  "source (defaultEdge n t) = JString n" "target (defaultEdge n t) = t"
  "source (catchEdge n i t f) = JString n" "target (catchEdge n i t f) = t"
  "source (nextEdge n t) = JString n" "target (nextEdge n t) = t"
  "source (endEdge n t) = JString n" "target (endEdge n t) = t"
  by (simp_all add: startEdge_def branchEdge_def branchStepEdge_def rejoinEdge_def choiceEdge_def
      defaultEdge_def catchEdge_def nextEdge_def endEdge_def)

subsection \<open>Edge sources\<close>

lemma sourcesKnown_catchStep:
  "sourcesKnown st \<and> n \<in> nodeIds st \<Longrightarrow>
   sourcesKnown (catchStep S n x y i c st) \<and> n \<in> nodeIds (catchStep S n x y i c st)"
  by (auto simp: sourcesKnown_def catchStep_def Let_def)

lemma sourcesKnown_run:
  assumes "run S name x y st r" and "sourcesKnown st"
  shows "sourcesKnown (snd r)"
proof (rule run_invariant(1)[where G = "\<lambda>_. True" and I = sourcesKnown, OF _ _ _ _ _ _ _ _ _ assms(1) TrueI assms(2)])
  fix n s bs x y my st2 and st :: lstate
  assume "sourcesKnown st"
    and pb: "processBranches n (parallelStartX x bs) (y + VERTICAL_SPACING) 0 bs
           (y + VERTICAL_SPACING, visitState n x y s st) = Some (my, st2)"
  then have "sourcesKnown (visitState n x y s st) \<and> n \<in> nodeIds (visitState n x y s st)"
    by (auto simp: sourcesKnown_def)
  then have "sourcesKnown st2 \<and> n \<in> nodeIds st2"
    by (rule processBranches_invariant[where J = "\<lambda>st. sourcesKnown st \<and> n \<in> nodeIds st", OF _ _ _ pb, rotated 3])
       (auto simp: sourcesKnown_def branchStepState_def)
  then show "sourcesKnown st2" by simp
next
  fix n s bs and st :: lstate
  assume "sourcesKnown st"
  then show "sourcesKnown (connectBranchEnds n (the (Next s)) 0 bs st)"
    by (rule connectBranchEnds_invariant[where J = sourcesKnown, rotated])
       (auto simp: sourcesKnown_def)
next
  fix n s x y and st :: lstate
  assume "sourcesKnown st"
  then have "sourcesKnown (visitState n x y s st) \<and> n \<in> nodeIds (visitState n x y s st)"
    by (auto simp: sourcesKnown_def)
  then have "sourcesKnown (catchPhase S n x y s (visitState n x y s st))
      \<and> n \<in> nodeIds (catchPhase S n x y s (visitState n x y s st))"
    by (rule catchPhase_invariant[where J = "\<lambda>st. sourcesKnown st \<and> n \<in> nodeIds st", rotated])
       (rule sourcesKnown_catchStep)
  then show "sourcesKnown (catchPhase S n x y s (visitState n x y s st))" by simp
next
  fix n s x and r :: "int \<times> lstate"
  assume "sourcesKnown (snd r)" "n \<in> processedStates (snd r)"
  then show "sourcesKnown (snd (finishState n x s r))"
    by (auto simp: sourcesKnown_def finishState_def nodeIds_def split: prod.splits)
qed (auto simp: sourcesKnown_def)

subsection \<open>Edge targets\<close>

lemma targetsKnown_weaken: "targetsKnown S Q st \<Longrightarrow> Q \<subseteq> Q' \<Longrightarrow> targetsKnown S Q' st"
  unfolding targetsKnown_def by blast

lemma targetsKnown_done:
  "targetsKnown S (insert a Q) st \<Longrightarrow> a \<in> nodeIds st \<or> getProp S a = None \<Longrightarrow> targetsKnown S Q st"
  unfolding targetsKnown_def by fastforce

lemma targetsKnown_visit:
  "targetsKnown S (insert a Q) st \<Longrightarrow> targetsKnown S Q (visitState a x y s st)"
  unfolding targetsKnown_def by auto

lemma targetsKnown_push:
  "targetsKnown S Q st \<Longrightarrow> target e = t \<Longrightarrow> targetsKnown S (insert t Q) (push_edge e st)"
  unfolding targetsKnown_def by auto

lemma targetsKnown_catchStep:
  "targetsKnown S Q st \<Longrightarrow> targetsKnown S Q (catchStep S n x y i c st)"
  by (auto simp: targetsKnown_def catchStep_def Let_def catchEdge_def split: option.splits)

lemma targetsKnown_finish:
  "targetsKnown S Q (snd r) \<Longrightarrow> targetsKnown S Q (snd (finishState n x s r))"
  by (auto simp: targetsKnown_def finishState_def nodeIds_def split: prod.splits)

lemma targetsKnown_branches:
  assumes pb: "processBranches n sx ny i bs (m, st) = Some (m', st')" and "targetsKnown S Q st"
  shows "targetsKnown S Q st'"
  by (rule processBranches_invariant[where J = "targetsKnown S Q", OF _ _ _ pb assms(2)])
     (auto simp: targetsKnown_def branchStepState_def)

lemma targetsKnown_connect:
  "targetsKnown S Q st \<Longrightarrow> targetsKnown S (insert nx Q) (connectBranchEnds n nx i bs st)"
proof -
  assume "targetsKnown S Q st"
  then have "targetsKnown S (insert nx Q) st" by (rule targetsKnown_weaken) auto
  then show ?thesis
    by (rule connectBranchEnds_invariant[where J = "targetsKnown S (insert nx Q)", rotated])
       (auto simp: targetsKnown_def)
qed


lemma targetsKnown_catchPhase:
  "targetsKnown S Q st \<Longrightarrow> targetsKnown S Q (catchPhase S n x y s st)"
  by (rule catchPhase_invariant[where J = "targetsKnown S Q", rotated])
     (simp_all add: targetsKnown_catchStep)

lemma targetsKnown_seen:
  "targetsKnown S (insert a Q) st \<Longrightarrow> a \<in> processedStates st \<Longrightarrow> targetsKnown S Q st"
  by (rule targetsKnown_done) (auto simp: targetsKnown_def)

lemma targetsKnown_run:
  "run S name x y st r \<Longrightarrow>
     (\<forall>Q. targetsKnown S (insert name Q) st \<longrightarrow> targetsKnown S Q (snd r))"
  "runChoices S name sx ny i cs acc r' \<Longrightarrow>
     (\<forall>Q. targetsKnown S Q (snd (snd acc)) \<longrightarrow> targetsKnown S Q (snd (snd r')))"
proof (induction rule: run_runChoices.inducts)
  case (skip stateName st x y)
  then show ?case by (auto intro: targetsKnown_done targetsKnown_seen)
next
  case (parallel_next stateName st s bs x y maxBranchY st2 r)
  from parallel_next have
    pb: "processBranches stateName (parallelStartX x bs) (y + VERTICAL_SPACING) 0 bs
               (y + VERTICAL_SPACING, visitState stateName x y s st) = Some (maxBranchY, st2)"
    and IH: "\<forall>Q. targetsKnown S (insert (the (Next s)) Q)
                 (connectBranchEnds stateName (the (Next s)) 0 bs st2) \<longrightarrow> targetsKnown S Q (snd r)"
    by simp_all
  show ?case
  proof (intro allI impI)
    fix Q assume "targetsKnown S (insert stateName Q) st"
    then have "targetsKnown S Q (visitState stateName x y s st)" by (rule targetsKnown_visit)
    then have "targetsKnown S Q st2" by (rule targetsKnown_branches[OF pb])
    then have "targetsKnown S (insert (the (Next s)) Q)
                 (connectBranchEnds stateName (the (Next s)) 0 bs st2)"
      by (rule targetsKnown_connect)
    then show "targetsKnown S Q (snd r)" using IH by blast
  qed
next
  case (parallel_last stateName st s bs x y maxBranchY st2)
  from parallel_last have
    pb: "processBranches stateName (parallelStartX x bs) (y + VERTICAL_SPACING) 0 bs
               (y + VERTICAL_SPACING, visitState stateName x y s st) = Some (maxBranchY, st2)"
    by simp
  show ?case
  proof (intro allI impI)
    fix Q assume "targetsKnown S (insert stateName Q) st"
    then have "targetsKnown S Q (visitState stateName x y s st)" by (rule targetsKnown_visit)
    then show "targetsKnown S Q (snd (maxBranchY, st2))"
      using targetsKnown_branches[OF pb] by simp
  qed
next
  case (choice_default stateName st s cs x y choiceTargets maxChoiceY st2 defaultY st4)
  from choice_default have
    IH1: "\<forall>Q. targetsKnown S Q (visitState stateName x y s st) \<longrightarrow> targetsKnown S Q st2"
    and IH2: "\<forall>Q. targetsKnown S (insert (the (Default s)) Q)
                 (push_edge (defaultEdge stateName (the (Default s))) st2) \<longrightarrow> targetsKnown S Q st4"
    by simp_all
  show ?case
  proof (intro allI impI)
    fix Q assume "targetsKnown S (insert stateName Q) st"
    then have "targetsKnown S Q (visitState stateName x y s st)" by (rule targetsKnown_visit)
    then have "targetsKnown S Q st2" using IH1 by blast
    then have "targetsKnown S (insert (the (Default s)) Q)
                 (push_edge (defaultEdge stateName (the (Default s))) st2)"
      by (rule targetsKnown_push) simp
    then show "targetsKnown S Q (snd (max maxChoiceY defaultY, st4))" using IH2 by simp
  qed
next
  case (choice_default_seen stateName st s cs x y choiceTargets maxChoiceY st2)
  from choice_default_seen have
    IH1: "\<forall>Q. targetsKnown S Q (visitState stateName x y s st) \<longrightarrow> targetsKnown S Q st2"
    and seen: "the (Default s) \<in> processedStates st2"
    by simp_all
  show ?case
  proof (intro allI impI)
    fix Q assume "targetsKnown S (insert stateName Q) st"
    then have "targetsKnown S Q (visitState stateName x y s st)" by (rule targetsKnown_visit)
    then have "targetsKnown S Q st2" using IH1 by blast
    then have "targetsKnown S (insert (the (Default s)) Q)
                 (push_edge (defaultEdge stateName (the (Default s))) st2)"
      by (rule targetsKnown_push) simp
    then show "targetsKnown S Q (snd (maxChoiceY, push_edge (defaultEdge stateName (the (Default s))) st2))"
      using seen by (auto intro: targetsKnown_seen)
  qed
next
  case (choice_no_default stateName st s cs x y choiceTargets maxChoiceY st2)
  from choice_no_default have
    IH1: "\<forall>Q. targetsKnown S Q (visitState stateName x y s st) \<longrightarrow> targetsKnown S Q st2"
    by simp
  show ?case
  proof (intro allI impI)
    fix Q assume "targetsKnown S (insert stateName Q) st"
    then have "targetsKnown S Q (visitState stateName x y s st)" by (rule targetsKnown_visit)
    then show "targetsKnown S Q (snd (maxChoiceY, st2))" using IH1 by simp
  qed
next
  case (regular_next stateName st s st2 x y r)
  from regular_next have
    st2: "st2 = catchPhase S stateName x y s (visitState stateName x y s st)"
    and IH: "\<forall>Q. targetsKnown S (insert (the (Next s)) Q)
                 (push_edge (nextEdge stateName (the (Next s))) st2) \<longrightarrow> targetsKnown S Q (snd r)"
    by simp_all
  show ?case
  proof (intro allI impI)
    fix Q assume "targetsKnown S (insert stateName Q) st"
    then have "targetsKnown S Q (visitState stateName x y s st)" by (rule targetsKnown_visit)
    then have "targetsKnown S Q st2" unfolding st2 by (rule targetsKnown_catchPhase)
    then have "targetsKnown S (insert (the (Next s)) Q)
                 (push_edge (nextEdge stateName (the (Next s))) st2)"
      by (rule targetsKnown_push) simp
    then have "targetsKnown S Q (snd r)" using IH by blast
    then show "targetsKnown S Q (snd (finishState stateName x s r))" by (rule targetsKnown_finish)
  qed
next
  case (regular_next_seen stateName st s st2 x y)
  from regular_next_seen have
    st2: "st2 = catchPhase S stateName x y s (visitState stateName x y s st)"
    and seen: "the (Next s) \<in> processedStates st2"
    by simp_all
  show ?case
  proof (intro allI impI)
    fix Q assume "targetsKnown S (insert stateName Q) st"
    then have "targetsKnown S Q (visitState stateName x y s st)" by (rule targetsKnown_visit)
    then have "targetsKnown S Q st2" unfolding st2 by (rule targetsKnown_catchPhase)
    then have "targetsKnown S (insert (the (Next s)) Q)
                 (push_edge (nextEdge stateName (the (Next s))) st2)"
      by (rule targetsKnown_push) simp
    then have "targetsKnown S Q (push_edge (nextEdge stateName (the (Next s))) st2)"
      using seen by (auto intro: targetsKnown_seen)
    then show "targetsKnown S Q (snd (finishState stateName x s
         (y + VERTICAL_SPACING, push_edge (nextEdge stateName (the (Next s))) st2)))"
      using targetsKnown_finish[of S Q "(y + VERTICAL_SPACING, push_edge (nextEdge stateName (the (Next s))) st2)"]
      by simp
  qed
next
  case (regular_last stateName st s st2 x y)
  from regular_last have
    st2: "st2 = catchPhase S stateName x y s (visitState stateName x y s st)"
    by simp
  show ?case
  proof (intro allI impI)
    fix Q assume "targetsKnown S (insert stateName Q) st"
    then have "targetsKnown S Q (visitState stateName x y s st)" by (rule targetsKnown_visit)
    then have "targetsKnown S Q st2" unfolding st2 by (rule targetsKnown_catchPhase)
    then show "targetsKnown S Q (snd (finishState stateName x s (y + VERTICAL_SPACING, st2)))"
      using targetsKnown_finish[of S Q "(y + VERTICAL_SPACING, st2)"] by simp
  qed
next
  case (choices_nil stateName startX nextY index acc)
  then show ?case by simp
next
  case (choices_call choice choiceTargets st startX index nextY stateName choiceY st2 rest maxChoiceY r)
  from choices_call have
    IH1: "\<forall>Q. targetsKnown S (insert (the (choice_Next choice)) Q)
            (push_edge (choiceEdge stateName index (the (choice_Next choice)) (choiceLabel choice)) st)
            \<longrightarrow> targetsKnown S Q st2"
    and IH2: "\<forall>Q. targetsKnown S Q st2 \<longrightarrow> targetsKnown S Q (snd (snd r))"
    by simp_all
  show ?case
  proof (intro allI impI)
    fix Q assume "targetsKnown S Q (snd (snd (choiceTargets, maxChoiceY, st)))"
    then have "targetsKnown S (insert (the (choice_Next choice)) Q)
            (push_edge (choiceEdge stateName index (the (choice_Next choice)) (choiceLabel choice)) st)"
      by (intro targetsKnown_push) simp_all
    then show "targetsKnown S Q (snd (snd r))" using IH1 IH2 by blast
  qed
next
  case (choices_seen choice choiceTargets st stateName startX nextY index rest maxChoiceY r)
  from choices_seen have
    seen: "the (choice_Next choice) \<in> processedStates st"
    and IH: "\<forall>Q. targetsKnown S Q
            (push_edge (choiceEdge stateName index (the (choice_Next choice)) (choiceLabel choice)) st)
            \<longrightarrow> targetsKnown S Q (snd (snd r))"
    by simp_all
  show ?case
  proof (intro allI impI)
    fix Q assume "targetsKnown S Q (snd (snd (choiceTargets, maxChoiceY, st)))"
    then have "targetsKnown S (insert (the (choice_Next choice)) Q)
            (push_edge (choiceEdge stateName index (the (choice_Next choice)) (choiceLabel choice)) st)"
      by (intro targetsKnown_push) simp_all
    then have "targetsKnown S Q
            (push_edge (choiceEdge stateName index (the (choice_Next choice)) (choiceLabel choice)) st)"
      using seen by (auto intro: targetsKnown_seen)
    then show "targetsKnown S Q (snd (snd r))" using IH by blast
  qed
next
  case (choices_skip choice choiceTargets stateName startX nextY index rest maxChoiceY st r)
  then show ?case by simp
qed


subsection \<open>Edges whose target has no node\<close>

lemma edge_style_simps [simp]:
  "\<not> isExitEdge (startEdge a)" "\<not> isExitEdge (branchEdge n b)" "\<not> isExitEdge (branchStepEdge p b)"
  "\<not> isExitEdge (rejoinEdge v t)" "\<not> isExitEdge (choiceEdge n i t l)" "\<not> isExitEdge (defaultEdge n t)"
  "\<not> isExitEdge (catchEdge n i t f)" "\<not> isExitEdge (nextEdge n t)" "isExitEdge (endEdge n t)"
  "targetHandle (startEdge a) = None" "targetHandle (branchEdge n b) = None"
  "targetHandle (branchStepEdge p b) = None" "targetHandle (rejoinEdge v t) = None"
  "targetHandle (choiceEdge n i t l) = None" "targetHandle (defaultEdge n t) = None"
  "targetHandle (catchEdge n i t f) = Some (if f then ''left'' else ''top'')"
  "targetHandle (nextEdge n t) = None" "targetHandle (endEdge n t) = None"
  by (simp_all add: isExitEdge_def startEdge_def branchEdge_def branchStepEdge_def rejoinEdge_def
      choiceEdge_def defaultEdge_def catchEdge_def nextEdge_def endEdge_def)

lemma targetsPlaced_catchStep:
  "targetsPlaced S R st \<Longrightarrow> targetsPlaced S R (catchStep S n x y i c st)"
  by (auto simp: targetsPlaced_def catchStep_def Let_def failTarget_def split: option.splits)

lemma targetsPlaced_run:
  assumes r: "run S name x y st r" and st: "targetsPlaced S R st" and name: "name \<in> R"
    and closed: "\<And>n s t. getProp S n = Some s \<Longrightarrow> t \<in> followed s \<Longrightarrow> t \<in> R"
  shows "targetsPlaced S R (snd r)"
proof (rule run_invariant(1)[where G = "\<lambda>n. n \<in> R" and I = "targetsPlaced S R",
        OF _ _ _ _ _ _ _ _ _ r name st])
  fix n s t assume "getProp S n = Some s" "t \<in> followed s"
  then show "t \<in> R" by (rule closed)
next
  fix n s bs x y my st2 and st :: lstate
  assume "targetsPlaced S R st"
    and pb: "processBranches n (parallelStartX x bs) (y + VERTICAL_SPACING) 0 bs
           (y + VERTICAL_SPACING, visitState n x y s st) = Some (my, st2)"
  then have "targetsPlaced S R (visitState n x y s st)"
    by (auto simp: targetsPlaced_def)
  then show "targetsPlaced S R st2"
    by (rule processBranches_invariant[where J = "targetsPlaced S R", OF _ _ _ pb, rotated 3])
       (auto simp: targetsPlaced_def branchStepState_def)
next
  fix n s bs and st :: lstate
  assume "targetsPlaced S R st" "getProp S n = Some s" "isParallel s" "truthy (Next s)"
  moreover from this have "the (Next s) \<in> R"
    by (intro closed[of n s]) (auto simp: followed_def isParallel_def isChoice_def)
  ultimately show "targetsPlaced S R (connectBranchEnds n (the (Next s)) 0 bs st)"
    by (intro connectBranchEnds_invariant[where J = "targetsPlaced S R"])
       (auto simp: targetsPlaced_def)
next
  fix n s x y and st :: lstate
  assume "targetsPlaced S R st"
  then show "targetsPlaced S R (visitState n x y s st)"
    by (auto simp: targetsPlaced_def)
next
  fix n s i c and st :: lstate
  assume "targetsPlaced S R st" "getProp S n = Some s" "isChoice s"
    "c \<in> set (the (Choices s))" "truthy (choice_Next c)"
  moreover from this have "the (choice_Next c) \<in> R"
    by (intro closed[of n s]) (auto simp: followed_def)
  ultimately show "targetsPlaced S R
      (push_edge (choiceEdge n i (the (choice_Next c)) (choiceLabel c)) st)"
    by (auto simp: targetsPlaced_def)
next
  fix n s and st :: lstate
  assume "targetsPlaced S R st" "getProp S n = Some s" "isChoice s" "truthy (Default s)"
  moreover from this have "the (Default s) \<in> R"
    by (intro closed[of n s]) (auto simp: followed_def)
  ultimately show "targetsPlaced S R (push_edge (defaultEdge n (the (Default s))) st)"
    by (auto simp: targetsPlaced_def)
next
  fix n s x y and st :: lstate
  assume "targetsPlaced S R st"
  then have "targetsPlaced S R (visitState n x y s st)"
    by (auto simp: targetsPlaced_def)
  then show "targetsPlaced S R (catchPhase S n x y s (visitState n x y s st))"
    by (rule catchPhase_invariant[where J = "targetsPlaced S R", rotated])
       (rule targetsPlaced_catchStep)
next
  fix n s and st :: lstate
  assume "targetsPlaced S R st" "getProp S n = Some s" "isRegular s" "truthy (Next s)"
  moreover from this have "the (Next s) \<in> R"
    by (intro closed[of n s]) (auto simp: followed_def isRegular_def)
  ultimately show "targetsPlaced S R (push_edge (nextEdge n (the (Next s))) st)"
    by (auto simp: targetsPlaced_def)
next
  fix n s x and r :: "int \<times> lstate"
  assume "targetsPlaced S R (snd r)"
  then show "targetsPlaced S R (snd (finishState n x s r))"
    by (auto simp: targetsPlaced_def finishState_def nodeIds_def split: prod.splits)
qed


lemma referenced_closed:
  "getProp (States d) n = Some s \<Longrightarrow> t \<in> followed s \<Longrightarrow> t \<in> referenced d"
  unfolding referenced_def by blast

text \<open>
  C1, as stated, fails, in three ways. The edge to a \<^verbatim>\<open>Next\<close> that is not a key of the
  states object is pushed before the target is looked up, and no node is ever made for
  it. The error edge of a catch rule is pushed whatever its target is, and only a Fail
  target gets a node from it. And the edge that leaves a Parallel state takes its source
  from \<^verbatim>\<open>nodePositions\<close>, where the key \<^verbatim>\<open>P_branch_0_end\<close> may still hold the position
  object of a state of that name: the source of the edge is then that object.
\<close>

theorem edge_ends_counterexample:
  "(case parseStateMachine (\<lambda>s. None) (Object danglingNext) of
      Some (Inr g) \<Rightarrow>
        map node_id (nodes g) = [''__START__'', ''A'']
        \<and> map (\<lambda>e. (source e, target e)) (edges g)
             = [(JString ''__START__'', ''A''), (JString ''A'', ''B'')]
        \<and> \<not> (\<forall>e\<in>set (edges g). target e \<in> node_id ` set (nodes g))
    | _ \<Rightarrow> False)
   \<and> (case parseStateMachine (\<lambda>s. None) (Object catchOnly) of
      Some (Inr g) \<Rightarrow>
        map node_id (nodes g) = [''__START__'', ''T'', ''__END_T__'']
        \<and> map (\<lambda>e. (source e, target e)) (edges g)
             = [(JString ''__START__'', ''T''), (JString ''T'', ''H''),
                (JString ''T'', ''__END_T__'')]
        \<and> \<not> (\<forall>e\<in>set (edges g). target e \<in> node_id ` set (nodes g))
    | _ \<Rightarrow> False)
   \<and> (case parseStateMachine (\<lambda>s. None) (Object stalePosition) of
      Some (Inr g) \<Rightarrow>
        map node_id (nodes g) = [''__START__'', ''P_branch_0_end'', ''P'', ''S'', ''__END_S__'']
        \<and> map (\<lambda>e. (source e, target e)) (edges g)
             = [(JString ''__START__'', ''P_branch_0_end''), (JString ''P_branch_0_end'', ''P''),
                (JPoint 0 100, ''S''), (JString ''S'', ''__END_S__'')]
        \<and> \<not> (\<forall>e\<in>set (edges g). source e \<in> JString ` node_id ` set (nodes g))
    | _ \<Rightarrow> False)"
  by code_simp

text \<open>
  C1, amended: in every returned graph, an edge source that is a string is the id of a
  node; the target of an exit edge is the id of a node; and the target of any edge is
  the id of a node unless either the edge is not an error edge and its target is a name
  that the definition refers to (as start state, or as \<^verbatim>\<open>Next\<close>, rule target or
  \<^verbatim>\<open>Default\<close> of a state) and that the lookup in the states object does not find, or
  the edge is an error edge to a target that is not a Fail state (such an edge enters at
  the handle \<^verbatim>\<open>top\<close>).
\<close>

theorem edge_ends_are_nodes:
  assumes "layoutDefinition d = Some g"
  shows "\<forall>e\<in>set (edges g).
           (\<forall>a. source e = JString a \<longrightarrow> a \<in> node_id ` set (nodes g))
           \<and> (isExitEdge e \<longrightarrow> target e \<in> node_id ` set (nodes g))
           \<and> (target e \<in> node_id ` set (nodes g)
                \<or> (targetHandle e \<noteq> Some ''top'' \<and> target e \<in> referenced d
                      \<and> getProp (States d) (target e) = None)
                \<or> (targetHandle e = Some ''top'' \<and> \<not> failTarget (States d) (target e)))"
  using assms
proof (cases rule: layoutDefinition_cases)
  case empty
  then show ?thesis by (simp add: emptyGraph_def)
next
  case (laid y st)
  let ?a = "the (StartAt d)"
  have "sourcesKnown (initialState ?a)"
    by (simp add: sourcesKnown_def initialState_def nodeIds_def)
  from sourcesKnown_run[OF laid(3) this] have sk: "sourcesKnown st" by simp
  have "targetsKnown (States d) (insert ?a {}) (initialState ?a)"
    by (simp add: targetsKnown_def initialState_def)
  with targetsKnown_run(1)[OF laid(3)] have tk: "targetsKnown (States d) {} st" by auto
  have a: "?a \<in> referenced d" using laid(1) by (simp add: referenced_def)
  have "targetsPlaced (States d) (referenced d) (initialState ?a)"
    using a by (simp add: targetsPlaced_def initialState_def)
  from targetsPlaced_run[OF laid(3) this a referenced_closed]
  have tp: "targetsPlaced (States d) (referenced d) st" by simp
  have n: "node_id ` set (nodes g) = nodeIds st" and e: "edges g = edges st"
    using laid(4) by (simp_all add: nodeIds_def)
  show ?thesis
  proof
    fix e assume "e \<in> set (edges g)"
    then have m: "e \<in> set (edges st)" using e by simp
    have 1: "\<forall>a. source e = JString a \<longrightarrow> a \<in> nodeIds st"
      using sk m by (auto simp: sourcesKnown_def)
    have 2: "isExitEdge e \<longrightarrow> target e \<in> nodeIds st"
      and 3: "targetHandle e = Some ''top'' \<longrightarrow> \<not> failTarget (States d) (target e)"
      and 4: "target e \<in> nodeIds st \<union> referenced d \<or> targetHandle e = Some ''top''"
      using tp m by (auto simp: targetsPlaced_def)
    have 5: "getProp (States d) (target e) \<noteq> None \<and> targetHandle e \<noteq> Some ''top''
               \<longrightarrow> target e \<in> nodeIds st"
      using tk m by (auto simp: targetsKnown_def)
    from 1 2 3 4 5 show "(\<forall>a. source e = JString a \<longrightarrow> a \<in> node_id ` set (nodes g))
           \<and> (isExitEdge e \<longrightarrow> target e \<in> node_id ` set (nodes g))
           \<and> (target e \<in> node_id ` set (nodes g)
                \<or> (targetHandle e \<noteq> Some ''top'' \<and> target e \<in> referenced d
                      \<and> getProp (States d) (target e) = None)
                \<or> (targetHandle e = Some ''top'' \<and> \<not> failTarget (States d) (target e)))"
      unfolding n by blast
  qed
qed

theorem edge_ends_are_nodes_witness:
  "layoutDefinition catchOnly \<noteq> None
   \<and> endEdge ''T'' ''__END_T__'' \<in> set (edges (the (layoutDefinition catchOnly)))
   \<and> source (endEdge ''T'' ''__END_T__'') = JString ''T''
   \<and> isExitEdge (endEdge ''T'' ''__END_T__'')
   \<and> ''T'' \<in> node_id ` set (nodes (the (layoutDefinition catchOnly)))
   \<and> target (endEdge ''T'' ''__END_T__'') \<in> node_id ` set (nodes (the (layoutDefinition catchOnly)))"
proof -
  have l: "layoutDefinition catchOnly \<noteq> None" by code_simp
  then have l': "layoutDefinition catchOnly = Some (the (layoutDefinition catchOnly))" by simp
  have e: "endEdge ''T'' ''__END_T__'' \<in> set (edges (the (layoutDefinition catchOnly)))" by code_simp
  have s: "source (endEdge ''T'' ''__END_T__'') = JString ''T''" by simp
  have x: "isExitEdge (endEdge ''T'' ''__END_T__'')" by simp
  from edge_ends_are_nodes[OF l'] e s x show ?thesis using l by blast
qed

section \<open>Every reachable state is laid out once\<close>

lemma newClosed_refl: "newClosed S st st"
  by (simp add: newClosed_def)

lemma newClosed_trans: "newClosed S st st1 \<Longrightarrow> newClosed S st1 st2 \<Longrightarrow> newClosed S st st2"
  unfolding newClosed_def by blast

lemma newClosed_same:
  "newClosed S st st1 \<Longrightarrow> processedStates st2 = processedStates st1 \<Longrightarrow> newClosed S st st2"
  unfolding newClosed_def by simp

lemma catchStep_new_fail:
  "b \<in> processedStates (catchStep S n x y i c st) \<Longrightarrow> b \<notin> processedStates st
   \<Longrightarrow> \<exists>s. getProp S b = Some s \<and> Type s = Some ''Fail''"
  by (auto simp: catchStep_def Let_def split: if_splits option.splits)

lemma processCatch_new_fail:
  "b \<in> processedStates (processCatch S n x y i cs st) \<Longrightarrow> b \<notin> processedStates st
   \<Longrightarrow> \<exists>s. getProp S b = Some s \<and> Type s = Some ''Fail''"
proof (induction cs arbitrary: i st)
  case Nil
  then show ?case by simp
next
  case (Cons c cs)
  show ?case
  proof (cases "b \<in> processedStates (catchStep S n x y i c st)")
    case True
    then show ?thesis using Cons.prems(2) by (rule catchStep_new_fail)
  next
    case False
    then show ?thesis using Cons.IH[of "Suc i" "catchStep S n x y i c st"] Cons.prems(1) by simp
  qed
qed

lemma catchPhase_new_fail:
  "b \<in> processedStates (catchPhase S n x y s st) \<Longrightarrow> b \<notin> processedStates st
   \<Longrightarrow> \<exists>s. getProp S b = Some s \<and> Type s = Some ''Fail''"
  by (auto simp: catchPhase_def split: option.splits dest: processCatch_new_fail)

text \<open>
  What the handling of one state achieves, given the states its followed transitions
  lead to are processed at the end.
\<close>

lemma newClosed_handler:
  assumes gp: "getProp S n = Some s"
    and v: "processedStates st1 \<subseteq> processedStates st'" "n \<in> processedStates st1"
    and new: "\<forall>b\<in>processedStates st1 - insert n (processedStates st).
               \<exists>q. getProp S b = Some q \<and> Type q = Some ''Fail''"
    and sub: "processedStates st \<subseteq> processedStates st1"
    and rest: "newClosed S st1 st'"
    and tr: "\<forall>c\<in>transitions s. getProp S c \<noteq> None \<longrightarrow> c \<in> processedStates st'"
  shows "newClosed S st st'"
  unfolding newClosed_def
proof (intro conjI ballI allI impI)
  show "processedStates st \<subseteq> processedStates st'" using sub v(1) by blast
next
  fix b q c
  assume b: "b \<in> processedStates st' - processedStates st"
    and q: "getProp S b = Some q" "c \<in> transitions q" "getProp S c \<noteq> None"
  consider (n) "b = n" | (f) "b \<noteq> n" "b \<in> processedStates st1" | (r) "b \<notin> processedStates st1"
    by blast
  then show "c \<in> processedStates st'"
  proof cases
    case n
    then show ?thesis using tr q gp by auto
  next
    case f
    then have "\<exists>q. getProp S b = Some q \<and> Type q = Some ''Fail''" using new b by blast
    then show ?thesis using q by (auto simp: transitions_def)
  next
    case r
    then show ?thesis using rest b q unfolding newClosed_def by blast
  qed
qed


lemma ruleTargets_Cons:
  "ruleTargets (c # cs) = (if truthy (choice_Next c) then {the (choice_Next c)} else {}) \<union> ruleTargets cs"
  by (auto simp: ruleTargets_def)

lemma resolvedIn_mono:
  "resolvedIn S T st \<Longrightarrow> processedStates st \<subseteq> processedStates st' \<Longrightarrow> resolvedIn S T st'"
  unfolding resolvedIn_def by blast

lemma newClosed_sub: "newClosed S st st' \<Longrightarrow> processedStates st \<subseteq> processedStates st'"
  by (simp add: newClosed_def)

lemma transitions_regular:
  "\<not> (Type s = Some ''Choice'' \<and> Choices s \<noteq> None) \<Longrightarrow>
   transitions s \<subseteq> (if truthy (Next s) then {the (Next s)} else {})"
  by (auto simp: transitions_def followed_def isChoice_def)

lemma transitions_choice:
  "Type s = Some ''Choice'' \<Longrightarrow> Choices s = Some cs \<Longrightarrow>
   transitions s \<subseteq> ruleTargets cs \<union> (if truthy (Default s) then {the (Default s)} else {})"
  by (auto simp: transitions_def followed_def isChoice_def ruleTargets_def split: if_splits)

lemma closure_run:
  "run S name x y st r \<Longrightarrow>
     newClosed S st (snd r) \<and> (getProp S name \<noteq> None \<longrightarrow> name \<in> processedStates (snd r))"
  "runChoices S name sx ny i cs acc r' \<Longrightarrow>
     resolvedIn S (fst acc) (snd (snd acc)) \<longrightarrow>
       newClosed S (snd (snd acc)) (snd (snd r')) \<and> resolvedIn S (fst r') (snd (snd r'))
       \<and> fst acc \<union> ruleTargets cs \<subseteq> fst r'"
proof (induction rule: run_runChoices.inducts)
  case (skip stateName st x y)
  then show ?case by (auto simp: newClosed_refl)
next
  case (parallel_next stateName st s bs x y maxBranchY st2 r)
  from parallel_next have gp: "getProp S stateName = Some s" and ty: "Type s = Some ''Parallel''"
    and pb: "processBranches stateName (parallelStartX x bs) (y + VERTICAL_SPACING) 0 bs
               (y + VERTICAL_SPACING, visitState stateName x y s st) = Some (maxBranchY, st2)"
    and IH: "newClosed S (connectBranchEnds stateName (the (Next s)) 0 bs st2) (snd r)"
      "getProp S (the (Next s)) \<noteq> None \<longrightarrow> the (Next s) \<in> processedStates (snd r)"
    by simp_all
  let ?c = "connectBranchEnds stateName (the (Next s)) 0 bs st2"
  have p: "processedStates st2 = insert stateName (processedStates st)"
    using processBranches_processed[OF pb] by simp
  have tr: "\<forall>c\<in>transitions s. getProp S c \<noteq> None \<longrightarrow> c \<in> processedStates (snd r)"
    using transitions_regular[of s] ty IH(2) by (auto split: if_splits)
  have "newClosed S st (snd r)"
    by (rule newClosed_handler[OF gp newClosed_sub[OF IH(1)] _ _ _ IH(1) tr]) (auto simp: p)
  moreover have "stateName \<in> processedStates (snd r)" using newClosed_sub[OF IH(1)] p by auto
  ultimately show ?case by simp
next
  case (parallel_last stateName st s bs x y maxBranchY st2)
  from parallel_last have gp: "getProp S stateName = Some s" and ty: "Type s = Some ''Parallel''"
    and pb: "processBranches stateName (parallelStartX x bs) (y + VERTICAL_SPACING) 0 bs
               (y + VERTICAL_SPACING, visitState stateName x y s st) = Some (maxBranchY, st2)"
    and nn: "\<not> truthy (Next s)"
    by simp_all
  have p: "processedStates st2 = insert stateName (processedStates st)"
    using processBranches_processed[OF pb] by simp
  have tr: "\<forall>c\<in>transitions s. getProp S c \<noteq> None \<longrightarrow> c \<in> processedStates st2"
    using transitions_regular[of s] ty nn by auto
  have "newClosed S st st2"
    by (rule newClosed_handler[OF gp subset_refl _ _ _ newClosed_refl tr]) (auto simp: p)
  then show ?case using p by simp
next
  case (choice_default stateName st s cs x y choiceTargets maxChoiceY st2 defaultY st4)
  let ?v = "visitState stateName x y s st"
  let ?p = "push_edge (defaultEdge stateName (the (Default s))) st2"
  from choice_default have gp: "getProp S stateName = Some s" and cs: "Choices s = Some cs"
    and ty: "Type s = Some ''Choice''"
    and IH1: "newClosed S ?v st2" "resolvedIn S choiceTargets st2" "ruleTargets cs \<subseteq> choiceTargets"
    and IH2: "newClosed S ?p st4"
      "getProp S (the (Default s)) \<noteq> None \<longrightarrow> the (Default s) \<in> processedStates st4"
    by (simp_all add: resolvedIn_def)
  have c24: "newClosed S st2 st4" using IH2(1) unfolding newClosed_def by simp
  have c: "newClosed S ?v st4" by (rule newClosed_trans[OF IH1(1) c24])
  have r4: "resolvedIn S choiceTargets st4"
    by (rule resolvedIn_mono[OF IH1(2) newClosed_sub[OF c24]])
  have tr: "\<forall>c\<in>transitions s. getProp S c \<noteq> None \<longrightarrow> c \<in> processedStates st4"
    using transitions_choice[OF ty cs] IH1(3) r4 IH2(2) by (auto simp: resolvedIn_def split: if_splits)
  have "newClosed S st st4"
    by (rule newClosed_handler[OF gp newClosed_sub[OF c] _ _ _ c tr]) auto
  moreover have "stateName \<in> processedStates st4" using newClosed_sub[OF c] by auto
  ultimately show ?case by simp
next
  case (choice_default_seen stateName st s cs x y choiceTargets maxChoiceY st2)
  let ?v = "visitState stateName x y s st"
  let ?p = "push_edge (defaultEdge stateName (the (Default s))) st2"
  from choice_default_seen have gp: "getProp S stateName = Some s" and cs: "Choices s = Some cs"
    and ty: "Type s = Some ''Choice''"
    and IH1: "newClosed S ?v st2" "resolvedIn S choiceTargets st2" "ruleTargets cs \<subseteq> choiceTargets"
    and seen: "the (Default s) \<in> processedStates st2"
    by (simp_all add: resolvedIn_def)
  have c: "newClosed S ?v ?p" using IH1(1) unfolding newClosed_def by simp
  have tr: "\<forall>c\<in>transitions s. getProp S c \<noteq> None \<longrightarrow> c \<in> processedStates ?p"
    using transitions_choice[OF ty cs] IH1(2,3) seen by (auto simp: resolvedIn_def split: if_splits)
  have "newClosed S st ?p"
    by (rule newClosed_handler[OF gp newClosed_sub[OF c] _ _ _ c tr]) auto
  moreover have "stateName \<in> processedStates ?p" using newClosed_sub[OF c] by auto
  ultimately show ?case by simp
next
  case (choice_no_default stateName st s cs x y choiceTargets maxChoiceY st2)
  let ?v = "visitState stateName x y s st"
  from choice_no_default have gp: "getProp S stateName = Some s" and cs: "Choices s = Some cs"
    and ty: "Type s = Some ''Choice''"
    and IH1: "newClosed S ?v st2" "resolvedIn S choiceTargets st2" "ruleTargets cs \<subseteq> choiceTargets"
    and nd: "\<not> (truthy (Default s) \<and> the (Default s) \<notin> choiceTargets)"
    by (simp_all add: resolvedIn_def)
  have tr: "\<forall>c\<in>transitions s. getProp S c \<noteq> None \<longrightarrow> c \<in> processedStates st2"
    using transitions_choice[OF ty cs] IH1(2,3) nd by (auto simp: resolvedIn_def split: if_splits)
  have "newClosed S st st2"
    by (rule newClosed_handler[OF gp newClosed_sub[OF IH1(1)] _ _ _ IH1(1) tr]) auto
  moreover have "stateName \<in> processedStates st2" using newClosed_sub[OF IH1(1)] by auto
  ultimately show ?case by simp
next
  case (regular_next stateName st s st2 x y r)
  let ?v = "visitState stateName x y s st"
  let ?p = "push_edge (nextEdge stateName (the (Next s))) st2"
  from regular_next have gp: "getProp S stateName = Some s"
    and nc: "\<not> (Type s = Some ''Choice'' \<and> Choices s \<noteq> None)"
    and st2: "st2 = catchPhase S stateName x y s ?v"
    and IH: "newClosed S ?p (snd r)"
      "getProp S (the (Next s)) \<noteq> None \<longrightarrow> the (Next s) \<in> processedStates (snd r)"
    by simp_all
  have c: "newClosed S st2 (snd (finishState stateName x s r))"
    using IH(1) unfolding newClosed_def by simp
  have sub: "processedStates ?v \<subseteq> processedStates st2" unfolding st2 by (rule catchPhase_processed)
  have new: "\<forall>b\<in>processedStates st2 - insert stateName (processedStates st).
               \<exists>q. getProp S b = Some q \<and> Type q = Some ''Fail''"
    unfolding st2 using catchPhase_new_fail[of _ S stateName x y s ?v] by auto
  have tr: "\<forall>c\<in>transitions s. getProp S c \<noteq> None
              \<longrightarrow> c \<in> processedStates (snd (finishState stateName x s r))"
    using transitions_regular[OF nc] IH(2) by (auto split: if_splits)
  have "newClosed S st (snd (finishState stateName x s r))"
    by (rule newClosed_handler[OF gp newClosed_sub[OF c] _ new _ c tr]) (use sub in auto)
  moreover have "stateName \<in> processedStates (snd (finishState stateName x s r))"
    using newClosed_sub[OF c] sub by auto
  ultimately show ?case by simp
next
  case (regular_next_seen stateName st s st2 x y)
  let ?v = "visitState stateName x y s st"
  let ?p = "push_edge (nextEdge stateName (the (Next s))) st2"
  let ?r = "finishState stateName x s (y + VERTICAL_SPACING, ?p)"
  from regular_next_seen have gp: "getProp S stateName = Some s"
    and nc: "\<not> (Type s = Some ''Choice'' \<and> Choices s \<noteq> None)"
    and st2: "st2 = catchPhase S stateName x y s ?v"
    and seen: "the (Next s) \<in> processedStates st2"
    by simp_all
  have pr: "processedStates (snd ?r) = processedStates st2" by simp
  have c: "newClosed S st2 (snd ?r)" unfolding newClosed_def pr by simp
  have sub: "processedStates ?v \<subseteq> processedStates st2" unfolding st2 by (rule catchPhase_processed)
  have new: "\<forall>b\<in>processedStates st2 - insert stateName (processedStates st).
               \<exists>q. getProp S b = Some q \<and> Type q = Some ''Fail''"
    unfolding st2 using catchPhase_new_fail[of _ S stateName x y s ?v] by auto
  have tr: "\<forall>c\<in>transitions s. getProp S c \<noteq> None \<longrightarrow> c \<in> processedStates (snd ?r)"
    using transitions_regular[OF nc] seen pr by (auto split: if_splits)
  have "newClosed S st (snd ?r)"
    by (rule newClosed_handler[OF gp newClosed_sub[OF c] _ new _ c tr]) (use sub in auto)
  moreover have "stateName \<in> processedStates (snd ?r)" using pr sub by auto
  ultimately show ?case by simp
next
  case (regular_last stateName st s st2 x y)
  let ?v = "visitState stateName x y s st"
  let ?r = "finishState stateName x s (y + VERTICAL_SPACING, st2)"
  from regular_last have gp: "getProp S stateName = Some s"
    and nc: "\<not> (Type s = Some ''Choice'' \<and> Choices s \<noteq> None)"
    and st2: "st2 = catchPhase S stateName x y s ?v"
    and nn: "\<not> truthy (Next s)"
    by simp_all
  have pr: "processedStates (snd ?r) = processedStates st2" by simp
  have c: "newClosed S st2 (snd ?r)" unfolding newClosed_def pr by simp
  have sub: "processedStates ?v \<subseteq> processedStates st2" unfolding st2 by (rule catchPhase_processed)
  have new: "\<forall>b\<in>processedStates st2 - insert stateName (processedStates st).
               \<exists>q. getProp S b = Some q \<and> Type q = Some ''Fail''"
    unfolding st2 using catchPhase_new_fail[of _ S stateName x y s ?v] by auto
  have tr: "\<forall>c\<in>transitions s. getProp S c \<noteq> None \<longrightarrow> c \<in> processedStates (snd ?r)"
    using transitions_regular[OF nc] nn by auto
  have "newClosed S st (snd ?r)"
    by (rule newClosed_handler[OF gp newClosed_sub[OF c] _ new _ c tr]) (use sub in auto)
  moreover have "stateName \<in> processedStates (snd ?r)" using pr sub by auto
  ultimately show ?case by simp
next
  case (choices_nil stateName startX nextY index acc)
  show ?case by (simp add: newClosed_refl ruleTargets_def)
next
  case (choices_call choice choiceTargets st startX index nextY stateName choiceY st2 rest maxChoiceY r)
  let ?t = "the (choice_Next choice)"
  let ?p = "push_edge (choiceEdge stateName index ?t (choiceLabel choice)) st"
  from choices_call have tc: "truthy (choice_Next choice)"
    and IH1: "newClosed S ?p st2" "getProp S ?t \<noteq> None \<longrightarrow> ?t \<in> processedStates st2"
    and IH2: "resolvedIn S (insert ?t choiceTargets) st2 \<longrightarrow>
       newClosed S st2 (snd (snd r)) \<and> resolvedIn S (fst r) (snd (snd r))
       \<and> insert ?t choiceTargets \<union> ruleTargets rest \<subseteq> fst r"
    by simp_all
  show ?case
  proof (intro impI)
    assume "resolvedIn S (fst (choiceTargets, maxChoiceY, st)) (snd (snd (choiceTargets, maxChoiceY, st)))"
    then have r0: "resolvedIn S choiceTargets st" by simp
    have c1: "newClosed S st st2" using IH1(1) unfolding newClosed_def by simp
    have "resolvedIn S (insert ?t choiceTargets) st2"
      using resolvedIn_mono[OF r0 newClosed_sub[OF c1]] IH1(2) by (simp add: resolvedIn_def)
    with IH2 have h: "newClosed S st2 (snd (snd r))" "resolvedIn S (fst r) (snd (snd r))"
      "insert ?t choiceTargets \<union> ruleTargets rest \<subseteq> fst r" by auto
    show "newClosed S (snd (snd (choiceTargets, maxChoiceY, st))) (snd (snd r))
       \<and> resolvedIn S (fst r) (snd (snd r))
       \<and> fst (choiceTargets, maxChoiceY, st) \<union> ruleTargets (choice # rest) \<subseteq> fst r"
      using newClosed_trans[OF c1 h(1)] h(2,3) tc by (auto simp: ruleTargets_Cons)
  qed
next
  case (choices_seen choice choiceTargets st stateName startX nextY index rest maxChoiceY r)
  let ?t = "the (choice_Next choice)"
  let ?p = "push_edge (choiceEdge stateName index ?t (choiceLabel choice)) st"
  from choices_seen have tc: "truthy (choice_Next choice)"
    and seen: "?t \<in> processedStates st"
    and IH: "resolvedIn S (insert ?t choiceTargets) ?p \<longrightarrow>
       newClosed S ?p (snd (snd r)) \<and> resolvedIn S (fst r) (snd (snd r))
       \<and> insert ?t choiceTargets \<union> ruleTargets rest \<subseteq> fst r"
    by simp_all
  show ?case
  proof (intro impI)
    assume "resolvedIn S (fst (choiceTargets, maxChoiceY, st)) (snd (snd (choiceTargets, maxChoiceY, st)))"
    then have r0: "resolvedIn S choiceTargets st" by simp
    have "resolvedIn S (insert ?t choiceTargets) ?p"
      using r0 seen by (simp add: resolvedIn_def)
    with IH have h: "newClosed S ?p (snd (snd r))" "resolvedIn S (fst r) (snd (snd r))"
      "insert ?t choiceTargets \<union> ruleTargets rest \<subseteq> fst r" by auto
    have "newClosed S st (snd (snd r))" using h(1) unfolding newClosed_def by simp
    then show "newClosed S (snd (snd (choiceTargets, maxChoiceY, st))) (snd (snd r))
       \<and> resolvedIn S (fst r) (snd (snd r))
       \<and> fst (choiceTargets, maxChoiceY, st) \<union> ruleTargets (choice # rest) \<subseteq> fst r"
      using h(2,3) tc by (auto simp: ruleTargets_Cons)
  qed
next
  case (choices_skip choice choiceTargets stateName startX nextY index rest maxChoiceY st r)
  then show ?case by (auto simp: ruleTargets_Cons)
qed


lemma count_main:
  "distinct (mainIds ns) \<Longrightarrow>
   length (filter (\<lambda>n. mainNode n \<and> node_id n = t) ns) = (if t \<in> set (mainIds ns) then 1 else 0)"
proof (induction ns)
  case Nil
  then show ?case by simp
next
  case (Cons n ns)
  have m: "mainIds (n # ns) = (if mainNode n then [node_id n] else []) @ mainIds ns"
    by (simp add: mainIds_def)
  from Cons.prems have d: "distinct (mainIds ns)" and f: "mainNode n \<longrightarrow> node_id n \<notin> set (mainIds ns)"
    by (auto simp: m split: if_splits)
  show ?case using Cons.IH[OF d] f by (auto simp: m)
qed



section \<open>Choice rules that share a target\<close>

lemma choiceStyle_simps [simp]:
  "\<not> choiceStyle (startEdge a)" "\<not> choiceStyle (branchEdge n b)" "\<not> choiceStyle (branchStepEdge p b)"
  "\<not> choiceStyle (rejoinEdge v a)" "choiceStyle (choiceEdge n i a l)" "choiceStyle (defaultEdge n a)"
  "\<not> choiceStyle (catchEdge n i a f)" "\<not> choiceStyle (nextEdge n a)" "\<not> choiceStyle (endEdge n a)"
  by (simp_all add: choiceStyle_def startEdge_def branchEdge_def branchStepEdge_def rejoinEdge_def
      choiceEdge_def defaultEdge_def catchEdge_def nextEdge_def endEdge_def)

lemma choiceEdges_append [simp]:
  "choiceEdges c t (es @ fs) = choiceEdges c t es @ choiceEdges c t fs"
  by (simp add: choiceEdges_def)

lemma choiceEdges_single:
  "choiceEdges c t [e] = (if source e = JString c \<and> target e = t \<and> choiceStyle e then [e] else [])"
  by (simp add: choiceEdges_def)

lemma choiceEdges_branches:
  assumes "processBranches n sx ny i bs (m, st) = Some (m', st')"
  shows "choiceEdges c t (edges st') = choiceEdges c t (edges st)"
  by (rule processBranches_invariant[where J = "\<lambda>s. choiceEdges c t (edges s) = choiceEdges c t (edges st)",
        OF _ _ _ assms])
     (simp_all add: branchStepState_def choiceEdges_single)

lemma choiceEdges_connect [simp]:
  "choiceEdges c t (edges (connectBranchEnds n nx i bs st)) = choiceEdges c t (edges st)"
  by (rule connectBranchEnds_invariant[where J = "\<lambda>s. choiceEdges c t (edges s) = choiceEdges c t (edges st)"])
     (simp_all add: choiceEdges_single)

lemma choiceEdges_catchStep [simp]:
  "choiceEdges c t (edges (catchStep S n x y i cb st)) = choiceEdges c t (edges st)"
  by (simp add: catchStep_def Let_def choiceEdges_single)

lemma choiceEdges_catchPhase [simp]:
  "choiceEdges c t (edges (catchPhase S n x y s st)) = choiceEdges c t (edges st)"
  by (rule catchPhase_invariant[where J = "\<lambda>s. choiceEdges c t (edges s) = choiceEdges c t (edges st)"])
     simp_all

lemma choiceEdges_finish [simp]:
  "choiceEdges c t (edges (snd (finishState n x s r))) = choiceEdges c t (edges (snd r))"
  by (simp add: finishState_fields choiceEdges_single)


lemma edgeCount_frame:
  assumes "edgeCount S c t st" "choiceEdges c t (edges st') = choiceEdges c t (edges st)"
    "processedStates st \<subseteq> processedStates st'"
    "c \<in> processedStates st' \<Longrightarrow> c \<notin> processedStates st \<Longrightarrow> expectedEdges S c t = []"
  shows "edgeCount S c t st'"
  using assms unfolding edgeCount_def by auto

lemma expected_not_choice:
  "getProp S c = Some q \<Longrightarrow> \<not> isChoice q \<Longrightarrow> expectedEdges S c t = []"
  by (simp add: expectedEdges_def)

lemma expected_fail:
  "\<exists>q. getProp S c = Some q \<and> Type q = Some ''Fail'' \<Longrightarrow> expectedEdges S c t = []"
  by (auto simp: expectedEdges_def isChoice_def)

lemma edgeCount_regular:
  assumes "edgeCount S c t st" "getProp S n = Some s" "\<not> isChoice s"
  shows "edgeCount S c t (catchPhase S n x y s (visitState n x y s st))"
proof (rule edgeCount_frame[OF assms(1)])
  let ?v = "visitState n x y s st"
  show "choiceEdges c t (edges (catchPhase S n x y s ?v)) = choiceEdges c t (edges st)" by simp
  show "processedStates st \<subseteq> processedStates (catchPhase S n x y s ?v)"
    using catchPhase_processed[of ?v S n x y s] by auto
  assume c: "c \<in> processedStates (catchPhase S n x y s ?v)" "c \<notin> processedStates st"
  show "expectedEdges S c t = []"
  proof (cases "c = n")
    case True
    then show ?thesis using assms(2,3) by (simp add: expected_not_choice)
  next
    case False
    then have "c \<notin> processedStates ?v" using c(2) by simp
    from catchPhase_new_fail[OF c(1) this] show ?thesis by (rule expected_fail)
  qed
qed

lemma firstReference_none:
  "t \<notin> ruleTargets cs \<Longrightarrow> firstReference c i cs t = []"
  by (induction cs arbitrary: i) (auto simp: ruleTargets_Cons)

lemma firstReference_first:
  "t \<in> ruleTargets cs \<Longrightarrow>
   \<exists>j<length cs. truthy (choice_Next (cs ! j)) \<and> the (choice_Next (cs ! j)) = t
      \<and> (\<forall>k<j. \<not> (truthy (choice_Next (cs ! k)) \<and> the (choice_Next (cs ! k)) = t))
      \<and> firstReference c i cs t = [choiceEdge c (i + j) t (choiceLabel (cs ! j))]"
proof (induction cs arbitrary: i)
  case Nil
  then show ?case by (simp add: ruleTargets_def)
next
  case (Cons r rs)
  show ?case
  proof (cases "truthy (choice_Next r) \<and> the (choice_Next r) = t")
    case True
    then show ?thesis by (intro exI[of _ 0]) simp
  next
    case False
    then have "t \<in> ruleTargets rs"
      using Cons.prems by (auto simp: ruleTargets_Cons split: if_splits)
    from Cons.IH[OF this, of "Suc i"] obtain j where j: "j < length rs"
      "truthy (choice_Next (rs ! j))" "the (choice_Next (rs ! j)) = t"
      "\<forall>k<j. \<not> (truthy (choice_Next (rs ! k)) \<and> the (choice_Next (rs ! k)) = t)"
      "firstReference c (Suc i) rs t = [choiceEdge c (Suc i + j) t (choiceLabel (rs ! j))]"
      by blast
    have "\<forall>k<Suc j. \<not> (truthy (choice_Next ((r # rs) ! k)) \<and> the (choice_Next ((r # rs) ! k)) = t)"
      using j(4) False by (auto simp: less_Suc_eq_0_disj)
    then show ?thesis using j False by (intro exI[of _ "Suc j"]) auto
  qed
qed

lemma edgeCount_run:
  "run S name x y st r \<Longrightarrow>
     (c \<in> processedStates st \<longrightarrow> choiceEdges c t (edges (snd r)) = choiceEdges c t (edges st))
     \<and> (edgeCount S c t st \<longrightarrow> edgeCount S c t (snd r))"
  "runChoices S name sx ny i cs acc r' \<Longrightarrow>
     (name \<noteq> c \<longrightarrow>
        (c \<in> processedStates (snd (snd acc)) \<longrightarrow>
           choiceEdges c t (edges (snd (snd r'))) = choiceEdges c t (edges (snd (snd acc))))
        \<and> (edgeCount S c t (snd (snd acc)) \<longrightarrow> edgeCount S c t (snd (snd r'))))
     \<and> (name = c \<longrightarrow> c \<in> processedStates (snd (snd acc)) \<longrightarrow>
          (t \<notin> fst acc \<longrightarrow> choiceEdges c t (edges (snd (snd acc))) = []) \<longrightarrow>
          choiceEdges c t (edges (snd (snd r')))
            = (if t \<in> fst acc then choiceEdges c t (edges (snd (snd acc)))
               else firstReference c i cs t)
          \<and> fst r' = fst acc \<union> ruleTargets cs \<and> c \<in> processedStates (snd (snd r')))"
proof (induction rule: run_runChoices.inducts)
  case (skip stateName st x y)
  show ?case by simp
next
  case (parallel_next stateName st s bs x y maxBranchY st2 r)
  let ?c = "connectBranchEnds stateName (the (Next s)) 0 bs st2"
  from parallel_next have np: "stateName \<notin> processedStates st"
    and gp: "getProp S stateName = Some s" and ty: "Type s = Some ''Parallel''"
    and pb: "processBranches stateName (parallelStartX x bs) (y + VERTICAL_SPACING) 0 bs
               (y + VERTICAL_SPACING, visitState stateName x y s st) = Some (maxBranchY, st2)"
    and IH: "c \<in> processedStates ?c \<longrightarrow> choiceEdges c t (edges (snd r)) = choiceEdges c t (edges ?c)"
      "edgeCount S c t ?c \<longrightarrow> edgeCount S c t (snd r)"
    by simp_all
  have ce: "choiceEdges c t (edges ?c) = choiceEdges c t (edges st)"
    using choiceEdges_branches[OF pb] by simp
  have p: "processedStates ?c = insert stateName (processedStates st)"
    using processBranches_processed[OF pb] by simp
  have nc: "\<not> isChoice s" using ty by (simp add: isChoice_def)
  have "edgeCount S c t ?c" if "edgeCount S c t st"
    by (rule edgeCount_frame[OF that ce]) (use p gp nc in \<open>auto simp: expected_not_choice\<close>)
  then show ?case using IH ce p by auto
next
  case (parallel_last stateName st s bs x y maxBranchY st2)
  from parallel_last have np: "stateName \<notin> processedStates st"
    and gp: "getProp S stateName = Some s" and ty: "Type s = Some ''Parallel''"
    and pb: "processBranches stateName (parallelStartX x bs) (y + VERTICAL_SPACING) 0 bs
               (y + VERTICAL_SPACING, visitState stateName x y s st) = Some (maxBranchY, st2)"
    by simp_all
  have ce: "choiceEdges c t (edges st2) = choiceEdges c t (edges st)"
    using choiceEdges_branches[OF pb] by simp
  have p: "processedStates st2 = insert stateName (processedStates st)"
    using processBranches_processed[OF pb] by simp
  have nc: "\<not> isChoice s" using ty by (simp add: isChoice_def)
  have "edgeCount S c t st2" if "edgeCount S c t st"
    by (rule edgeCount_frame[OF that ce]) (use p gp nc in \<open>auto simp: expected_not_choice\<close>)
  then show ?case using ce by auto
next
  case (regular_next stateName st s st2 x y r)
  let ?p = "push_edge (nextEdge stateName (the (Next s))) st2"
  from regular_next have gp: "getProp S stateName = Some s"
    and nc: "\<not> (Type s = Some ''Choice'' \<and> Choices s \<noteq> None)"
    and st2: "st2 = catchPhase S stateName x y s (visitState stateName x y s st)"
    and IH: "c \<in> processedStates ?p \<longrightarrow> choiceEdges c t (edges (snd r)) = choiceEdges c t (edges ?p)"
      "edgeCount S c t ?p \<longrightarrow> edgeCount S c t (snd r)"
    by simp_all
  have ce: "choiceEdges c t (edges ?p) = choiceEdges c t (edges st)"
    by (simp add: st2 choiceEdges_single)
  have sub: "processedStates st \<subseteq> processedStates ?p"
    using catchPhase_processed[of "visitState stateName x y s st" S stateName x y s] by (auto simp: st2)
  have "edgeCount S c t st2" if "edgeCount S c t st"
    unfolding st2 by (rule edgeCount_regular[OF that gp]) (use nc in \<open>simp add: isChoice_def\<close>)
  then have "edgeCount S c t ?p" if "edgeCount S c t st"
    using that by (simp add: edgeCount_def choiceEdges_single)
  then have "edgeCount S c t (snd (finishState stateName x s r))" if "edgeCount S c t st"
    using that IH(2) by (simp add: edgeCount_def)
  then show ?case using IH(1) ce sub by auto
next
  case (regular_next_seen stateName st s st2 x y)
  let ?p = "push_edge (nextEdge stateName (the (Next s))) st2"
  from regular_next_seen have gp: "getProp S stateName = Some s"
    and nc: "\<not> (Type s = Some ''Choice'' \<and> Choices s \<noteq> None)"
    and st2: "st2 = catchPhase S stateName x y s (visitState stateName x y s st)"
    by simp_all
  have ce: "choiceEdges c t (edges ?p) = choiceEdges c t (edges st)"
    by (simp add: st2 choiceEdges_single)
  have "edgeCount S c t st2" if "edgeCount S c t st"
    unfolding st2 by (rule edgeCount_regular[OF that gp]) (use nc in \<open>simp add: isChoice_def\<close>)
  then have "edgeCount S c t
      (snd (finishState stateName x s (y + VERTICAL_SPACING, ?p)))" if "edgeCount S c t st"
    using that by (simp add: edgeCount_def choiceEdges_single)
  then show ?case using ce by auto
next
  case (regular_last stateName st s st2 x y)
  from regular_last have gp: "getProp S stateName = Some s"
    and nc: "\<not> (Type s = Some ''Choice'' \<and> Choices s \<noteq> None)"
    and st2: "st2 = catchPhase S stateName x y s (visitState stateName x y s st)"
    by simp_all
  have ce: "choiceEdges c t (edges st2) = choiceEdges c t (edges st)"
    by (simp add: st2)
  have "edgeCount S c t st2" if "edgeCount S c t st"
    unfolding st2 by (rule edgeCount_regular[OF that gp]) (use nc in \<open>simp add: isChoice_def\<close>)
  then have "edgeCount S c t
      (snd (finishState stateName x s (y + VERTICAL_SPACING, st2)))" if "edgeCount S c t st"
    using that by (simp add: edgeCount_def)
  then show ?case using ce by auto
next
next
  case (choices_nil stateName startX nextY index acc)
  show ?case by (simp add: ruleTargets_def)
next
  case (choices_skip choice choiceTargets stateName startX nextY index rest maxChoiceY st r)
  then show ?case by (auto simp: ruleTargets_Cons)
next
  case (choices_seen choice choiceTargets st stateName startX nextY index rest maxChoiceY r)
  let ?t = "the (choice_Next choice)"
  let ?p = "push_edge (choiceEdge stateName index ?t (choiceLabel choice)) st"
  from choices_seen have tc: "truthy (choice_Next choice)" and nt: "?t \<notin> choiceTargets"
    and IH: "stateName \<noteq> c \<longrightarrow>
        (c \<in> processedStates ?p \<longrightarrow> choiceEdges c t (edges (snd (snd r))) = choiceEdges c t (edges ?p))
        \<and> (edgeCount S c t ?p \<longrightarrow> edgeCount S c t (snd (snd r)))"
      "stateName = c \<longrightarrow> c \<in> processedStates ?p \<longrightarrow>
          (t \<notin> insert ?t choiceTargets \<longrightarrow> choiceEdges c t (edges ?p) = []) \<longrightarrow>
          choiceEdges c t (edges (snd (snd r)))
            = (if t \<in> insert ?t choiceTargets then choiceEdges c t (edges ?p)
               else firstReference c (Suc index) rest t)
          \<and> fst r = insert ?t choiceTargets \<union> ruleTargets rest \<and> c \<in> processedStates (snd (snd r))"
    by simp_all
  show ?case
  proof (cases "stateName = c")
    case False
    then show ?thesis using IH(1) by (simp add: choiceEdges_single edgeCount_def)
  next
    case True
    have "choiceEdges c t (edges (snd (snd r)))
          = (if t \<in> choiceTargets then choiceEdges c t (edges st)
             else firstReference c index (choice # rest) t)
        \<and> fst r = choiceTargets \<union> ruleTargets (choice # rest)
        \<and> c \<in> processedStates (snd (snd r))"
      if h: "stateName = c" "c \<in> processedStates st"
        "t \<notin> choiceTargets \<longrightarrow> choiceEdges c t (edges st) = []"
    proof -
      have pre: "t \<notin> insert ?t choiceTargets \<longrightarrow> choiceEdges c t (edges ?p) = []"
        using h(3) by (auto simp: choiceEdges_single)
      from IH(2) h(1,2) pre
      have r: "choiceEdges c t (edges (snd (snd r)))
            = (if t \<in> insert ?t choiceTargets then choiceEdges c t (edges ?p)
               else firstReference c (Suc index) rest t)"
        "fst r = insert ?t choiceTargets \<union> ruleTargets rest" "c \<in> processedStates (snd (snd r))"
        by simp_all
      have "choiceEdges c t (edges (snd (snd r)))
          = (if t \<in> choiceTargets then choiceEdges c t (edges st)
             else firstReference c index (choice # rest) t)"
        using r(1) h(1,3) nt tc by (auto simp: choiceEdges_single)
      moreover have "fst r = choiceTargets \<union> ruleTargets (choice # rest)"
        using r(2) tc by (auto simp: ruleTargets_Cons)
      ultimately show ?thesis using r(3) by simp
    qed
    then show ?thesis using True by simp
  qed
next
  case (choices_call choice choiceTargets st startX index nextY stateName choiceY st2 rest maxChoiceY r)
  let ?t = "the (choice_Next choice)"
  let ?p = "push_edge (choiceEdge stateName index ?t (choiceLabel choice)) st"
  from choices_call have tc: "truthy (choice_Next choice)" and nt: "?t \<notin> choiceTargets"
    and r1: "run S ?t (startX + int index * HORIZONTAL_SPACING) nextY ?p (choiceY, st2)"
    and IH1: "c \<in> processedStates ?p \<longrightarrow> choiceEdges c t (edges st2) = choiceEdges c t (edges ?p)"
      "edgeCount S c t ?p \<longrightarrow> edgeCount S c t st2"
    and IH2: "stateName \<noteq> c \<longrightarrow>
        (c \<in> processedStates st2 \<longrightarrow> choiceEdges c t (edges (snd (snd r))) = choiceEdges c t (edges st2))
        \<and> (edgeCount S c t st2 \<longrightarrow> edgeCount S c t (snd (snd r)))"
      "stateName = c \<longrightarrow> c \<in> processedStates st2 \<longrightarrow>
          (t \<notin> insert ?t choiceTargets \<longrightarrow> choiceEdges c t (edges st2) = []) \<longrightarrow>
          choiceEdges c t (edges (snd (snd r)))
            = (if t \<in> insert ?t choiceTargets then choiceEdges c t (edges st2)
               else firstReference c (Suc index) rest t)
          \<and> fst r = insert ?t choiceTargets \<union> ruleTargets rest \<and> c \<in> processedStates (snd (snd r))"
    by simp_all
  have sub: "processedStates st \<subseteq> processedStates st2" using run_mono(1)[OF r1] by simp
  show ?case
  proof (cases "stateName = c")
    case False
    have "choiceEdges c t (edges (snd (snd r))) = choiceEdges c t (edges st)" if "c \<in> processedStates st"
      using that IH1(1) IH2(1) False sub by (auto simp: choiceEdges_single)
    moreover have "edgeCount S c t (snd (snd r))" if "edgeCount S c t st"
    proof -
      have "edgeCount S c t ?p" using that False by (simp add: edgeCount_def choiceEdges_single)
      then show ?thesis using IH1(2) IH2(1) False by blast
    qed
    ultimately show ?thesis using False by simp
  next
    case True
    have "choiceEdges c t (edges (snd (snd r)))
          = (if t \<in> choiceTargets then choiceEdges c t (edges st)
             else firstReference c index (choice # rest) t)
        \<and> fst r = choiceTargets \<union> ruleTargets (choice # rest)
        \<and> c \<in> processedStates (snd (snd r))"
      if h: "stateName = c" "c \<in> processedStates st"
        "t \<notin> choiceTargets \<longrightarrow> choiceEdges c t (edges st) = []"
    proof -
      have c2: "c \<in> processedStates st2" using h(2) sub by auto
      have e2: "choiceEdges c t (edges st2) = choiceEdges c t (edges ?p)"
        using IH1(1) h(2) by simp
      have pre: "t \<notin> insert ?t choiceTargets \<longrightarrow> choiceEdges c t (edges st2) = []"
        using h(3) e2 by (auto simp: choiceEdges_single)
      from IH2(2) h(1) c2 pre
      have r: "choiceEdges c t (edges (snd (snd r)))
            = (if t \<in> insert ?t choiceTargets then choiceEdges c t (edges st2)
               else firstReference c (Suc index) rest t)"
        "fst r = insert ?t choiceTargets \<union> ruleTargets rest" "c \<in> processedStates (snd (snd r))"
        by simp_all
      have "choiceEdges c t (edges (snd (snd r)))
          = (if t \<in> choiceTargets then choiceEdges c t (edges st)
             else firstReference c index (choice # rest) t)"
        using r(1) e2 h(1,3) nt tc by (auto simp: choiceEdges_single)
      moreover have "fst r = choiceTargets \<union> ruleTargets (choice # rest)"
        using r(2) tc by (auto simp: ruleTargets_Cons)
      ultimately show ?thesis using r(3) by simp
    qed
    then show ?thesis using True by simp
  qed
next
  case (choice_no_default stateName st s cs x y choiceTargets maxChoiceY st2)
  let ?v = "visitState stateName x y s st"
  from choice_no_default have np: "stateName \<notin> processedStates st"
    and gp: "getProp S stateName = Some s" and ty: "Type s = Some ''Choice''" and cs: "Choices s = Some cs"
    and nd: "\<not> (truthy (Default s) \<and> the (Default s) \<notin> choiceTargets)"
    and IH: "stateName \<noteq> c \<longrightarrow>
        (c \<in> processedStates ?v \<longrightarrow> choiceEdges c t (edges st2) = choiceEdges c t (edges ?v))
        \<and> (edgeCount S c t ?v \<longrightarrow> edgeCount S c t st2)"
      "stateName = c \<longrightarrow> c \<in> processedStates ?v \<longrightarrow>
          (t \<notin> {} \<longrightarrow> choiceEdges c t (edges ?v) = []) \<longrightarrow>
          choiceEdges c t (edges st2)
            = (if t \<in> {} then choiceEdges c t (edges ?v) else firstReference c 0 cs t)
          \<and> choiceTargets = {} \<union> ruleTargets cs \<and> c \<in> processedStates st2"
    by simp_all
  have ic: "isChoice s" using ty cs by (simp add: isChoice_def)
  show ?case
  proof (cases "stateName = c")
    case False
    have "edgeCount S c t ?v" if "edgeCount S c t st"
      using that False by (simp add: edgeCount_def)
    then show ?thesis using IH(1) False by auto
  next
    case True
    have k1: "c \<notin> processedStates st" using np True by simp
    have "edgeCount S c t st2" if "edgeCount S c t st"
    proof -
      have "choiceEdges c t (edges ?v) = []" using that k1 by (simp add: edgeCount_def)
      with IH(2) True have h: "choiceEdges c t (edges st2) = firstReference c 0 cs t"
        "choiceTargets = ruleTargets cs" "c \<in> processedStates st2" by auto
      have "expectedEdges S c t = firstReference c 0 cs t"
        using gp ic cs nd h(2) True
        by (auto simp: expectedEdges_def firstReference_none)
      then show ?thesis using h by (simp add: edgeCount_def)
    qed
    then show ?thesis using k1 by simp
  qed
next
  case (choice_default_seen stateName st s cs x y choiceTargets maxChoiceY st2)
  let ?v = "visitState stateName x y s st"
  let ?d = "the (Default s)"
  let ?p = "push_edge (defaultEdge stateName ?d) st2"
  from choice_default_seen have np: "stateName \<notin> processedStates st"
    and gp: "getProp S stateName = Some s" and ty: "Type s = Some ''Choice''" and cs: "Choices s = Some cs"
    and td: "truthy (Default s)" and dn: "?d \<notin> choiceTargets"
    and IH: "stateName \<noteq> c \<longrightarrow>
        (c \<in> processedStates ?v \<longrightarrow> choiceEdges c t (edges st2) = choiceEdges c t (edges ?v))
        \<and> (edgeCount S c t ?v \<longrightarrow> edgeCount S c t st2)"
      "stateName = c \<longrightarrow> c \<in> processedStates ?v \<longrightarrow>
          (t \<notin> {} \<longrightarrow> choiceEdges c t (edges ?v) = []) \<longrightarrow>
          choiceEdges c t (edges st2)
            = (if t \<in> {} then choiceEdges c t (edges ?v) else firstReference c 0 cs t)
          \<and> choiceTargets = {} \<union> ruleTargets cs \<and> c \<in> processedStates st2"
    by simp_all
  have ic: "isChoice s" using ty cs by (simp add: isChoice_def)
  show ?case
  proof (cases "stateName = c")
    case False
    have "edgeCount S c t ?v" if "edgeCount S c t st"
      using that False by (simp add: edgeCount_def)
    then show ?thesis using IH(1) False by (auto simp: choiceEdges_single edgeCount_def)
  next
    case True
    have k1: "c \<notin> processedStates st" using np True by simp
    have "edgeCount S c t ?p" if "edgeCount S c t st"
    proof -
      have "choiceEdges c t (edges ?v) = []" using that k1 by (simp add: edgeCount_def)
      with IH(2) True have h: "choiceEdges c t (edges st2) = firstReference c 0 cs t"
        "choiceTargets = ruleTargets cs" "c \<in> processedStates st2" by auto
      have "expectedEdges S c t
          = firstReference c 0 cs t @ (if t = ?d then [defaultEdge c t] else [])"
        using gp ic cs td dn h(2) True
        by (auto simp: expectedEdges_def firstReference_none)
      then show ?thesis using h True by (auto simp: edgeCount_def choiceEdges_single)
    qed
    then show ?thesis using k1 by simp
  qed
next
  case (choice_default stateName st s cs x y choiceTargets maxChoiceY st2 defaultY st4)
  let ?v = "visitState stateName x y s st"
  let ?d = "the (Default s)"
  let ?p = "push_edge (defaultEdge stateName ?d) st2"
  from choice_default have np: "stateName \<notin> processedStates st"
    and gp: "getProp S stateName = Some s" and ty: "Type s = Some ''Choice''" and cs: "Choices s = Some cs"
    and td: "truthy (Default s)" and dn: "?d \<notin> choiceTargets"
    and r2: "run S ?d (choiceStartX x s + int (length cs) * HORIZONTAL_SPACING)
        (y + VERTICAL_SPACING) ?p (defaultY, st4)"
    and rc: "runChoices S stateName (choiceStartX x s) (y + VERTICAL_SPACING) 0 cs
        ({}, y + VERTICAL_SPACING, ?v) (choiceTargets, maxChoiceY, st2)"
    and IH: "stateName \<noteq> c \<longrightarrow>
        (c \<in> processedStates ?v \<longrightarrow> choiceEdges c t (edges st2) = choiceEdges c t (edges ?v))
        \<and> (edgeCount S c t ?v \<longrightarrow> edgeCount S c t st2)"
      "stateName = c \<longrightarrow> c \<in> processedStates ?v \<longrightarrow>
          (t \<notin> {} \<longrightarrow> choiceEdges c t (edges ?v) = []) \<longrightarrow>
          choiceEdges c t (edges st2)
            = (if t \<in> {} then choiceEdges c t (edges ?v) else firstReference c 0 cs t)
          \<and> choiceTargets = {} \<union> ruleTargets cs \<and> c \<in> processedStates st2"
    and IH2: "c \<in> processedStates ?p \<longrightarrow> choiceEdges c t (edges st4) = choiceEdges c t (edges ?p)"
      "edgeCount S c t ?p \<longrightarrow> edgeCount S c t st4"
    by simp_all
  have ic: "isChoice s" using ty cs by (simp add: isChoice_def)
  have sub: "processedStates st2 \<subseteq> processedStates st4" using run_mono(1)[OF r2] by simp
  show ?case
  proof (cases "stateName = c")
    case False
    have "edgeCount S c t ?v" if "edgeCount S c t st"
      using that False by (simp add: edgeCount_def)
    then have "edgeCount S c t ?p" if "edgeCount S c t st"
      using that IH(1) False by (auto simp: choiceEdges_single edgeCount_def)
    moreover have "choiceEdges c t (edges st4) = choiceEdges c t (edges st)" if "c \<in> processedStates st"
    proof -
      have "choiceEdges c t (edges st2) = choiceEdges c t (edges st)" using that IH(1) False by simp
      moreover have "c \<in> processedStates ?p"
        using that run_mono(2)[OF rc] by auto
      ultimately show ?thesis using IH2(1) False by (simp add: choiceEdges_single)
    qed
    ultimately show ?thesis using IH2(2) by auto
  next
    case True
    have k1: "c \<notin> processedStates st" using np True by simp
    have "edgeCount S c t st4" if "edgeCount S c t st"
    proof -
      have "choiceEdges c t (edges ?v) = []" using that k1 by (simp add: edgeCount_def)
      with IH(2) True have h: "choiceEdges c t (edges st2) = firstReference c 0 cs t"
        "choiceTargets = ruleTargets cs" "c \<in> processedStates st2" by auto
      have e: "expectedEdges S c t
          = firstReference c 0 cs t @ (if t = ?d then [defaultEdge c t] else [])"
        using gp ic cs td dn h(2) True
        by (auto simp: expectedEdges_def firstReference_none)
      have "choiceEdges c t (edges st4) = choiceEdges c t (edges ?p)" using IH2(1) h(3) by simp
      then have "choiceEdges c t (edges st4)
          = firstReference c 0 cs t @ (if t = ?d then [defaultEdge c t] else [])"
        using h True by (auto simp: choiceEdges_single)
      then show ?thesis using e h(3) sub by (auto simp: edgeCount_def)
    qed
    then show ?thesis using k1 by simp
  qed
qed

lemma edgeCount_initialState: "edgeCount S c t (initialState a)"
  by (simp add: edgeCount_def initialState_def choiceEdges_def startEdge_def choiceStyle_def)


text \<open>
  C7, as stated, fails. In the main graph the loop over the rules draws the edge only
  when the target is not yet in \<^verbatim>\<open>choiceTargets\<close>, and the default edge only when the
  default is not among the rule targets: three references to \<open>T\<close> give one node and one
  edge from \<open>C\<close> to \<open>T\<close>, that of the first rule, where the claim asks for three edges.
  And the rules of a Choice state inside a branch are not read at all: the target \<open>D\<close>
  gets no node and no edge.
\<close>

theorem shared_choice_target_counterexample:
  "(case parseStateMachine (\<lambda>s. None) (Object sharedTarget) of
      Some (Inr g) \<Rightarrow>
        map node_id (nodes g) = [''__START__'', ''C'', ''T'', ''__END_T__'']
        \<and> map (\<lambda>e. (edge_id e, source e, target e, edge_label e)) (edges g)
            = [(''__START__-C'', JString ''__START__'', ''C'', None),
               (''C-choice-0-T'', JString ''C'', ''T'', Some ''x = 1''),
               (''T-__END_T__'', JString ''T'', ''__END_T__'', None)]
        \<and> length (filter (\<lambda>e. source e = JString ''C'' \<and> target e = ''T'') (edges g)) = 1
    | _ \<Rightarrow> False)
   \<and> (case parseStateMachine (\<lambda>s. None) (Object branchSharedTarget) of
      Some (Inr g) \<Rightarrow>
        map node_id (nodes g) = [''__START__'', ''P'', ''P_branch_0_C'']
        \<and> map (\<lambda>e. (source e, target e)) (edges g)
            = [(JString ''__START__'', ''P''), (JString ''P'', ''P_branch_0_C'')]
    | _ \<Rightarrow> False)"
  by code_simp

text \<open>
  C7, amended: for a Choice state \<open>c\<close> laid out in the main graph and a target \<open>t\<close> named
  by any number of its rules or by its default, the graph has exactly one edge of the
  Choice handler from \<open>c\<close> to \<open>t\<close>: the edge of the first rule that names \<open>t\<close> (with that
  rule's index in its id and that rule's label), or the default edge when no rule
  names \<open>t\<close>. The target has at most one node of the main graph, and exactly one when
  the lookup in the states object finds it.
\<close>

theorem choice_target_one_edge:
  assumes "layoutDefinition d = Some g"
    and "c \<in> set (mainIds (nodes g))" and "getProp (States d) c = Some sp"
    and "isChoice sp" and "Choices sp = Some cs" and "t \<in> followed sp"
  shows "(t \<in> ruleTargets cs \<longrightarrow>
            (\<exists>i<length cs. choice_Next (cs ! i) = Some t
               \<and> (\<forall>k<i. choice_Next (cs ! k) \<noteq> Some t)
               \<and> choiceEdges c t (edges g) = [choiceEdge c i t (choiceLabel (cs ! i))]))
    \<and> (t \<notin> ruleTargets cs \<longrightarrow> choiceEdges c t (edges g) = [defaultEdge c t])
    \<and> length (filter (\<lambda>n. mainNode n \<and> node_id n = t) (nodes g)) \<le> 1
    \<and> (getProp (States d) t \<noteq> None
         \<longrightarrow> length (filter (\<lambda>n. mainNode n \<and> node_id n = t) (nodes g)) = 1)"
  using assms(1)
proof (cases rule: layoutDefinition_cases)
  case empty
  then show ?thesis using assms(2) by (simp add: emptyGraph_def mainIds_def)
next
  case (laid y st)
  let ?a = "the (StartAt d)"
  have um: "uniqueMain st"
    using uniqueMain_run[OF laid(3) uniqueMain_initialState] by simp
  then have di: "distinct (mainIds (nodes st))" and p: "set (mainIds (nodes st)) = processedStates st"
    by (simp_all add: uniqueMain_def)
  have g: "nodes g = nodes st" "edges g = edges st" using laid(4) by simp_all
  have c: "c \<in> processedStates st" using assms(2) p g by simp
  from edgeCount_run(1)[OF laid(3), of c t] edgeCount_initialState
  have "edgeCount (States d) c t st" by simp
  then have ce: "choiceEdges c t (edges g) = expectedEdges (States d) c t"
    using c g by (simp add: edgeCount_def)
  have rule: "\<exists>i<length cs. choice_Next (cs ! i) = Some t
               \<and> (\<forall>k<i. choice_Next (cs ! k) \<noteq> Some t)
               \<and> choiceEdges c t (edges g) = [choiceEdge c i t (choiceLabel (cs ! i))]"
    if t: "t \<in> ruleTargets cs"
  proof -
    from firstReference_first[OF t, of c 0] obtain j where j: "j < length cs"
      "truthy (choice_Next (cs ! j))" "the (choice_Next (cs ! j)) = t"
      "\<forall>k<j. \<not> (truthy (choice_Next (cs ! k)) \<and> the (choice_Next (cs ! k)) = t)"
      "firstReference c 0 cs t = [choiceEdge c (0 + j) t (choiceLabel (cs ! j))]"
      by blast
    have ne: "t \<noteq> []" and 1: "choice_Next (cs ! j) = Some t"
      using j(2,3) by (auto simp: truthy_def split: option.splits)
    have 2: "\<forall>k<j. choice_Next (cs ! k) \<noteq> Some t"
      using j(4) ne by (auto simp: truthy_def)
    have "choiceEdges c t (edges g) = [choiceEdge c j t (choiceLabel (cs ! j))]"
      using ce assms(3,4,5) t j(5) by (simp add: expectedEdges_def)
    with j(1) 1 2 show ?thesis by blast
  qed
  have dflt: "choiceEdges c t (edges g) = [defaultEdge c t]" if "t \<notin> ruleTargets cs"
    using ce assms(3,4,5,6) that
    by (auto simp: expectedEdges_def followed_def ruleTargets_def split: if_splits)
  from closure_run(1)[OF laid(3)]
  have cl: "newClosed (States d) (initialState ?a) st" by simp
  have tr: "t \<in> transitions sp" using assms(4,6) by (simp add: transitions_def isChoice_def)
  have "t \<in> processedStates st" if "getProp (States d) t \<noteq> None"
    using cl c assms(3) tr that unfolding newClosed_def by (auto simp: initialState_def)
  then have "length (filter (\<lambda>n. mainNode n \<and> node_id n = t) (nodes g)) = 1"
    if "getProp (States d) t \<noteq> None"
    using that count_main[OF di, of t] p g by simp
  moreover have "length (filter (\<lambda>n. mainNode n \<and> node_id n = t) (nodes g)) \<le> 1"
    using count_main[OF di, of t] g by simp
  ultimately show ?thesis using rule dflt by blast
qed

theorem choice_target_one_edge_witness:
  "layoutDefinition sharedTarget \<noteq> None
   \<and> ''C'' \<in> set (mainIds (nodes (the (layoutDefinition sharedTarget))))
   \<and> isChoice (the (getProp (States sharedTarget) ''C''))
   \<and> ''T'' \<in> followed (the (getProp (States sharedTarget) ''C''))
   \<and> ''T'' \<in> ruleTargets [ChoiceRule (Some ''T'') ''x = 1'', ChoiceRule (Some ''T'') ''x = 2'']
   \<and> getProp (States sharedTarget) ''T'' \<noteq> None
   \<and> choiceEdges ''C'' ''T'' (edges (the (layoutDefinition sharedTarget)))
       = [choiceEdge ''C'' 0 ''T'' ''x = 1'']
   \<and> length (filter (\<lambda>n. mainNode n \<and> node_id n = ''T'')
        (nodes (the (layoutDefinition sharedTarget)))) = 1"
proof -
  let ?cs = "[ChoiceRule (Some ''T'') ''x = 1'', ChoiceRule (Some ''T'') ''x = 2'']"
  let ?sp = "StateSpec (Some ''Choice'') None False None (Some ?cs) (Some ''T'') None"
  let ?g = "the (layoutDefinition sharedTarget)"
  have l: "layoutDefinition sharedTarget \<noteq> None" by code_simp
  then have l': "layoutDefinition sharedTarget = Some ?g" by simp
  have m: "''C'' \<in> set (mainIds (nodes ?g))" by code_simp
  have gp: "getProp (States sharedTarget) ''C'' = Some ?sp"
    and gt: "getProp (States sharedTarget) ''T'' \<noteq> None"
    by (simp_all add: sharedTarget_def getProp_def)
  have ic: "isChoice ?sp" and cs: "Choices ?sp = Some ?cs" by (simp_all add: isChoice_def)
  have fo: "''T'' \<in> followed ?sp" by (simp add: followed_def isChoice_def truthy_def)
  have rt: "''T'' \<in> ruleTargets ?cs" by (simp add: ruleTargets_Cons truthy_def)
  note th = choice_target_one_edge[OF l' m gp ic cs fo]
  from th rt obtain i where i: "i < length ?cs" "\<forall>k<i. choice_Next (?cs ! k) \<noteq> Some ''T''"
    "choiceEdges ''C'' ''T'' (edges ?g) = [choiceEdge ''C'' i ''T'' (choiceLabel (?cs ! i))]"
    by blast
  have "i = 0" using i(2) by (cases i) auto
  then have e: "choiceEdges ''C'' ''T'' (edges ?g) = [choiceEdge ''C'' 0 ''T'' ''x = 1'']"
    using i(3) by simp
  from th gt have n: "length (filter (\<lambda>n. mainNode n \<and> node_id n = ''T'') (nodes ?g)) = 1"
    by blast
  show ?thesis using l m gp gt ic fo rt e n by simp
qed

section \<open>Catch rules in the returned graph\<close>

lemma catchStep_edges_mono: "set (edges st) \<subseteq> set (edges (catchStep S n x y i c st))"
  by (auto simp: catchStep_def Let_def)

lemma catchStep_edge:
  "truthy (catch_Next c) \<Longrightarrow>
   catchEdge n i (the (catch_Next c)) (failTarget S (the (catch_Next c)))
     \<in> set (edges (catchStep S n x y i c st))"
  by (auto simp: catchStep_def Let_def failTarget_def split: option.splits)

lemma processCatch_edges_mono: "set (edges st) \<subseteq> set (edges (processCatch S n x y i cs st))"
proof (induction cs arbitrary: i st)
  case Nil
  show ?case by simp
next
  case (Cons c cs)
  show ?case using catchStep_edges_mono[of st S n x y i c] Cons[where i = "Suc i" and st = "catchStep S n x y i c st"]
    by auto
qed

lemma processCatch_edge:
  "j < length cs \<Longrightarrow> truthy (catch_Next (cs ! j)) \<Longrightarrow>
   catchEdge n (i + j) (the (catch_Next (cs ! j))) (failTarget S (the (catch_Next (cs ! j))))
     \<in> set (edges (processCatch S n x y i cs st))"
proof (induction cs arbitrary: i j st)
  case Nil
  then show ?case by simp
next
  case (Cons c cs)
  show ?case
  proof (cases j)
    case 0
    then have "catchEdge n (i + j) (the (catch_Next ((c # cs) ! j)))
                 (failTarget S (the (catch_Next ((c # cs) ! j))))
        \<in> set (edges (catchStep S n x y i c st))"
      using Cons.prems catchStep_edge[of c n i S x y st] by simp
    then show ?thesis
      using processCatch_edges_mono[of "catchStep S n x y i c st" S n x y "Suc i" cs] by auto
  next
    case (Suc k)
    then have "k < length cs" "truthy (catch_Next (cs ! k))" using Cons.prems by simp_all
    from Cons.IH[OF this, where i = "Suc i" and st = "catchStep S n x y i c st"] show ?thesis using Suc by simp
  qed
qed

lemma catchPhase_edges_mono: "set (edges st) \<subseteq> set (edges (catchPhase S n x y s st))"
  by (simp add: catchPhase_def processCatch_edges_mono split: option.splits)

lemma catchPhase_edge:
  "Catch s = Some cs \<Longrightarrow> j < length cs \<Longrightarrow> truthy (catch_Next (cs ! j)) \<Longrightarrow>
   catchEdge n j (the (catch_Next (cs ! j))) (failTarget S (the (catch_Next (cs ! j))))
     \<in> set (edges (catchPhase S n x y s st))"
  using processCatch_edge[of j cs n 0 S x y st] by (simp add: catchPhase_def)

lemma errorEdgesDrawn_mono:
  assumes "errorEdgesDrawn S st" "set (edges st) \<subseteq> set (edges st')"
    and "\<And>T tp. T \<in> processedStates st' \<Longrightarrow> T \<notin> processedStates st \<Longrightarrow> getProp S T = Some tp
           \<Longrightarrow> isRegular tp \<Longrightarrow> Type tp \<noteq> Some ''Fail'' \<Longrightarrow> False"
  shows "errorEdgesDrawn S st'"
  unfolding errorEdgesDrawn_def
proof (intro ballI allI impI)
  fix T tp cs i
  assume h: "T \<in> processedStates st'" "getProp S T = Some tp" "isRegular tp"
    "Type tp \<noteq> Some ''Fail''" "Catch tp = Some cs" "i < length cs" "truthy (catch_Next (cs ! i))"
  then have "T \<in> processedStates st" using assms(3) by blast
  then show "catchEdge T i (the (catch_Next (cs ! i))) (failTarget S (the (catch_Next (cs ! i))))
          \<in> set (edges st')"
    using assms(1,2) h unfolding errorEdgesDrawn_def by blast
qed

lemma errorEdgesDrawn_push [simp]:
  "errorEdgesDrawn S st \<Longrightarrow> errorEdgesDrawn S (push_edge e st)"
  "errorEdgesDrawn S st \<Longrightarrow> errorEdgesDrawn S (push_node n st)"
  "errorEdgesDrawn S st \<Longrightarrow> errorEdgesDrawn S (set_position k v st)"
  by (auto simp: errorEdgesDrawn_def)

lemma errorEdgesDrawn_run:
  assumes r: "run S name x y st r" and st: "errorEdgesDrawn S st"
  shows "errorEdgesDrawn S (snd r)"
proof (rule run_invariant(1)[where G = "\<lambda>_. True" and I = "errorEdgesDrawn S",
        OF _ _ _ _ _ _ _ _ _ r TrueI st])
  fix n s bs x y my st2 and st :: lstate
  assume i: "errorEdgesDrawn S st" and gp: "getProp S n = Some s" and ip: "isParallel s"
    and pb: "processBranches n (parallelStartX x bs) (y + VERTICAL_SPACING) 0 bs
           (y + VERTICAL_SPACING, visitState n x y s st) = Some (my, st2)"
  have "errorEdgesDrawn S (visitState n x y s st)"
    by (rule errorEdgesDrawn_mono[OF i]) (use gp ip in \<open>auto simp: isRegular_def\<close>)
  then show "errorEdgesDrawn S st2"
    by (rule processBranches_invariant[where J = "errorEdgesDrawn S", OF _ _ _ pb, rotated 3])
       (simp_all add: branchStepState_def)
next
  fix n s bs and st :: lstate
  assume "errorEdgesDrawn S st"
  then show "errorEdgesDrawn S (connectBranchEnds n (the (Next s)) 0 bs st)"
    by (rule connectBranchEnds_invariant[where J = "errorEdgesDrawn S", rotated]) simp
next
  fix n s x y and st :: lstate
  assume i: "errorEdgesDrawn S st" and gp: "getProp S n = Some s" and ic: "isChoice s"
  show "errorEdgesDrawn S (visitState n x y s st)"
    by (rule errorEdgesDrawn_mono[OF i]) (use gp ic in \<open>auto simp: isRegular_def\<close>)
next
  fix n s x y and st :: lstate
  assume i: "errorEdgesDrawn S st" and gp: "getProp S n = Some s"
  let ?v = "visitState n x y s st"
  let ?c = "catchPhase S n x y s ?v"
  show "errorEdgesDrawn S ?c"
    unfolding errorEdgesDrawn_def
  proof (intro ballI allI impI)
    fix T tp cs j
    assume h: "T \<in> processedStates ?c" "getProp S T = Some tp" "isRegular tp"
      "Type tp \<noteq> Some ''Fail''" "Catch tp = Some cs" "j < length cs" "truthy (catch_Next (cs ! j))"
    show "catchEdge T j (the (catch_Next (cs ! j))) (failTarget S (the (catch_Next (cs ! j))))
          \<in> set (edges ?c)"
    proof (cases "T = n")
      case True
      then have "tp = s" using gp h(2) by simp
      then show ?thesis using catchPhase_edge[of s cs j n S x y ?v] h True by simp
    next
      case False
      have "T \<in> processedStates ?v"
        using catchPhase_new_fail[OF h(1), of ] h(2,4) by auto
      then have "T \<in> processedStates st" using False by simp
      then have "catchEdge T j (the (catch_Next (cs ! j))) (failTarget S (the (catch_Next (cs ! j))))
          \<in> set (edges st)"
        using i h unfolding errorEdgesDrawn_def by blast
      then show ?thesis using catchPhase_edges_mono[of ?v S n x y s] by auto
    qed
  qed
next
  fix n s x and r :: "int \<times> lstate"
  assume "errorEdgesDrawn S (snd r)"
  then show "errorEdgesDrawn S (snd (finishState n x s r))"
    by (auto simp: finishState_def split: prod.splits)
qed simp_all


lemma processed_followed_run:
  assumes r: "run S name x y st r" and name: "followReach S a name"
    and st: "\<forall>t\<in>processedStates st. followReach S a t \<or> failTarget S t"
  shows "\<forall>t\<in>processedStates (snd r). followReach S a t \<or> failTarget S t"
proof (rule run_invariant(1)[where G = "followReach S a"
        and I = "\<lambda>st. \<forall>t\<in>processedStates st. followReach S a t \<or> failTarget S t",
        OF _ _ _ _ _ _ _ _ _ r name st])
  fix n s t assume "followReach S a n" "getProp S n = Some s" "t \<in> followed s"
  then show "followReach S a t" by (rule followReach.follow)
next
  fix n s bs x y my st2 and st :: lstate
  assume "followReach S a n" "\<forall>t\<in>processedStates st. followReach S a t \<or> failTarget S t"
    and pb: "processBranches n (parallelStartX x bs) (y + VERTICAL_SPACING) 0 bs
           (y + VERTICAL_SPACING, visitState n x y s st) = Some (my, st2)"
  then show "\<forall>t\<in>processedStates st2. followReach S a t \<or> failTarget S t"
    using processBranches_processed[OF pb] by simp
next
  fix n s x y and st :: lstate
  assume h: "followReach S a n" "\<forall>t\<in>processedStates st. followReach S a t \<or> failTarget S t"
  let ?v = "visitState n x y s st"
  show "\<forall>t\<in>processedStates (catchPhase S n x y s ?v). followReach S a t \<or> failTarget S t"
  proof
    fix t assume t: "t \<in> processedStates (catchPhase S n x y s ?v)"
    show "followReach S a t \<or> failTarget S t"
    proof (cases "t \<in> processedStates ?v")
      case True
      then show ?thesis using h by auto
    next
      case False
      from catchPhase_new_fail[OF t False] show ?thesis by (auto simp: failTarget_def)
    qed
  qed
qed simp_all

text \<open>
  C10: a state that resolves in the states object, is not of type Fail, is not the start
  state and is not named by any followed transition (a \<^verbatim>\<open>Next\<close>, a choice rule or a
  \<^verbatim>\<open>Default\<close>) has no node of the main graph, whatever catch rules name it. And the
  returned graph holds the error edge of every catch rule with a target, of every state
  of the main graph whose catch rules are processed (a state handled as a regular state
  and not of type Fail): the edge leads to the rule's target, at the handle \<^verbatim>\<open>left\<close> for
  a Fail target and \<^verbatim>\<open>top\<close> otherwise. The transitions of a catch target are not
  followed: every node of the main graph belongs to a state that is reached from the
  start state through \<^verbatim>\<open>Next\<close>, rule targets and \<^verbatim>\<open>Default\<close>, or to a Fail state.
\<close>

theorem catch_only_target_not_laid_out:
  assumes "layoutDefinition d = Some g"
    and "getProp (States d) s = Some sp" and "Type sp \<noteq> Some ''Fail''"
    and "StartAt d \<noteq> Some s"
    and "\<forall>n q. getProp (States d) n = Some q \<longrightarrow> s \<notin> followed q"
  shows "s \<notin> set (mainIds (nodes g))
    \<and> (\<forall>T tp cs i. T \<in> set (mainIds (nodes g)) \<longrightarrow> getProp (States d) T = Some tp \<longrightarrow>
          isRegular tp \<longrightarrow> Type tp \<noteq> Some ''Fail'' \<longrightarrow> Catch tp = Some cs \<longrightarrow>
          i < length cs \<longrightarrow> truthy (catch_Next (cs ! i)) \<longrightarrow>
          catchEdge T i (the (catch_Next (cs ! i)))
              (failTarget (States d) (the (catch_Next (cs ! i)))) \<in> set (edges g))
    \<and> (\<forall>t\<in>set (mainIds (nodes g)).
          followReach (States d) (the (StartAt d)) t \<or> failTarget (States d) t)"
  using assms(1)
proof (cases rule: layoutDefinition_cases)
  case empty
  then show ?thesis by (simp add: emptyGraph_def)
next
  case (laid y st)
  have ne: "the (StartAt d) \<noteq> s"
    using laid(1) assms(4) by (auto simp: truthy_def split: option.splits)
  have np: "s \<notin> processedStates (snd (y, st))"
    by (rule not_processed_run[OF laid(3) assms(2,3,5) ne]) (simp add: initialState_def)
  have um: "uniqueMain (snd (y, st))"
    by (rule uniqueMain_run[OF laid(3) uniqueMain_initialState])
  have "errorEdgesDrawn (States d) (initialState (the (StartAt d)))"
    by (simp add: errorEdgesDrawn_def initialState_def)
  from errorEdgesDrawn_run[OF laid(3) this]
  have ed: "errorEdgesDrawn (States d) st" by simp
  have m: "set (mainIds (nodes g)) = processedStates st" and e: "edges g = edges st"
    using um laid(4) by (simp_all add: uniqueMain_def)
  have "s \<notin> set (mainIds (nodes g))" using np m by simp
  moreover have "catchEdge T i (the (catch_Next (cs ! i)))
              (failTarget (States d) (the (catch_Next (cs ! i)))) \<in> set (edges g)"
    if "T \<in> set (mainIds (nodes g))" "getProp (States d) T = Some tp" "isRegular tp"
      "Type tp \<noteq> Some ''Fail''" "Catch tp = Some cs" "i < length cs" "truthy (catch_Next (cs ! i))"
    for T tp cs i
    using ed that unfolding errorEdgesDrawn_def m e by blast
  moreover have "\<forall>t\<in>set (mainIds (nodes g)).
          followReach (States d) (the (StartAt d)) t \<or> failTarget (States d) t"
    using processed_followed_run[OF laid(3) followReach.first] m
    by (simp add: initialState_def)
  ultimately show ?thesis by blast
qed

theorem catch_only_target_not_laid_out_witness:
  "layoutDefinition catchOnly \<noteq> None
   \<and> getProp (States catchOnly) ''H''
       = Some (StateSpec (Some ''Pass'') None True None None None None)
   \<and> Type (StateSpec (Some ''Pass'') None True None None None None) \<noteq> Some ''Fail''
   \<and> StartAt catchOnly \<noteq> Some ''H''
   \<and> ''H'' \<notin> set (mainIds (nodes (the (layoutDefinition catchOnly))))
   \<and> ''T'' \<in> set (mainIds (nodes (the (layoutDefinition catchOnly))))
   \<and> getProp (States catchOnly) ''T''
       = Some (StateSpec (Some ''Task'') None True (Some [CatchBlock (Some ''H'')]) None None None)
   \<and> catchEdge ''T'' 0 ''H'' False \<in> set (edges (the (layoutDefinition catchOnly)))
   \<and> target (catchEdge ''T'' 0 ''H'' False) = ''H''"
proof -
  let ?tp = "StateSpec (Some ''Task'') None True (Some [CatchBlock (Some ''H'')]) None None None"
  have l: "layoutDefinition catchOnly \<noteq> None" by code_simp
  then have l': "layoutDefinition catchOnly = Some (the (layoutDefinition catchOnly))" by simp
  have g: "getProp (States catchOnly) ''H''
       = Some (StateSpec (Some ''Pass'') None True None None None None)"
    and gt: "getProp (States catchOnly) ''T'' = Some ?tp"
    by (simp_all add: catchOnly_def getProp_def)
  have t: "Type (StateSpec (Some ''Pass'') None True None None None None) \<noteq> Some ''Fail''"
    by simp
  have s: "StartAt catchOnly \<noteq> Some ''H''" by (simp add: catchOnly_def)
  have r: "\<forall>n q. getProp (States catchOnly) n = Some q \<longrightarrow> ''H'' \<notin> followed q"
    by (auto simp: catchOnly_def getProp_def followed_def isChoice_def inheritedValue_def
        truthy_def split: if_splits)
  have m: "''T'' \<in> set (mainIds (nodes (the (layoutDefinition catchOnly))))" by code_simp
  have h: "isRegular ?tp" "Type ?tp \<noteq> Some ''Fail''" "Catch ?tp = Some [CatchBlock (Some ''H'')]"
    "0 < length [CatchBlock (Some ''H'')]" "truthy (catch_Next ([CatchBlock (Some ''H'')] ! 0))"
    by (simp_all add: isRegular_def isParallel_def isChoice_def truthy_def)
  have f: "failTarget (States catchOnly) ''H'' = False" by (simp add: failTarget_def g)
  note th = catch_only_target_not_laid_out[OF l' g t s r]
  from th have c1: "''H'' \<notin> set (mainIds (nodes (the (layoutDefinition catchOnly))))" by blast
  from th m gt h
  have "catchEdge ''T'' 0 (the (catch_Next ([CatchBlock (Some ''H'')] ! 0)))
          (failTarget (States catchOnly) (the (catch_Next ([CatchBlock (Some ''H'')] ! 0))))
        \<in> set (edges (the (layoutDefinition catchOnly)))" by blast
  then have c2: "catchEdge ''T'' 0 ''H'' False \<in> set (edges (the (layoutDefinition catchOnly)))"
    by (simp add: f)
  show ?thesis using l g t s c1 m gt c2 by simp
qed

section \<open>Branch states and revisited states\<close>

















lemma branchNodeOf_simps [simp]:
  "\<not> branchNodeOf p i t (stateNode n x y s)" "\<not> branchNodeOf p i t (failNode n x y s)"
  "\<not> branchNodeOf p i t (endNode e x y)" "\<not> branchNodeOf p i t (startNode y)"
  by (simp_all add: branchNodeOf_def stateNode_def failNode_def endNode_def startNode_def)



lemma connectBranchEnds_nodes [simp]: "nodes (connectBranchEnds n nx i bs st) = nodes st"
  by (induction bs arbitrary: i st) (auto split: option.splits)





lemma processBranches_edges_mono:
  assumes "processBranches n sx ny i bs (m, st) = Some (m', st')"
  shows "set (edges st) \<subseteq> set (edges st')"
proof
  fix e assume "e \<in> set (edges st)"
  then show "e \<in> set (edges st')"
    by (rule processBranches_invariant[where J = "\<lambda>s. e \<in> set (edges s)", OF _ _ _ assms, rotated 3])
       (simp_all add: branchStepState_def)
qed

lemma connectBranchEnds_edges_mono:
  "set (edges st) \<subseteq> set (edges (connectBranchEnds n nx i bs st))"
proof
  fix e assume "e \<in> set (edges st)"
  then show "e \<in> set (edges (connectBranchEnds n nx i bs st))"
    by (rule connectBranchEnds_invariant[where J = "\<lambda>s. e \<in> set (edges s)", rotated]) simp
qed

lemma run_edges_mono:
  assumes "run S name x y st r"
  shows "set (edges st) \<subseteq> set (edges (snd r))"
proof
  fix e assume e: "e \<in> set (edges st)"
  show "e \<in> set (edges (snd r))"
  proof (rule run_invariant(1)[where G = "\<lambda>_. True" and I = "\<lambda>s. e \<in> set (edges s)",
        OF _ _ _ _ _ _ _ _ _ assms TrueI e])
    fix n s bs x y my st2 and st :: lstate
    assume "e \<in> set (edges st)"
      and pb: "processBranches n (parallelStartX x bs) (y + VERTICAL_SPACING) 0 bs
           (y + VERTICAL_SPACING, visitState n x y s st) = Some (my, st2)"
    then show "e \<in> set (edges st2)" using processBranches_edges_mono[OF pb] by auto
  next
    fix n s bs and st :: lstate
    assume "e \<in> set (edges st)"
    then show "e \<in> set (edges (connectBranchEnds n (the (Next s)) 0 bs st))"
      using connectBranchEnds_edges_mono by blast
  next
    fix n s x y and st :: lstate
    assume "e \<in> set (edges st)"
    then show "e \<in> set (edges (catchPhase S n x y s (visitState n x y s st)))"
      using catchPhase_edges_mono[of "visitState n x y s st" S n x y s] by auto
  qed (simp_all add: finishState_fields)
qed

lemma nextEdges_frame:
  assumes "nextEdges S st" "set (edges st) \<subseteq> set (edges st')"
    and "\<And>c. c \<in> processedStates st' \<Longrightarrow> c \<notin> processedStates st \<Longrightarrow> nextDrawn S c (set (edges st'))"
  shows "nextEdges S st'"
  unfolding nextEdges_def
proof
  fix c assume c: "c \<in> processedStates st'"
  show "nextDrawn S c (set (edges st'))"
  proof (cases "c \<in> processedStates st")
    case True
    then have "nextDrawn S c (set (edges st))" using assms(1) by (simp add: nextEdges_def)
    then show ?thesis using assms(2) unfolding nextDrawn_def by blast
  next
    case False
    then show ?thesis using assms(3) c by simp
  qed
qed



lemma nextEdges_push [simp]: "nextEdges S st \<Longrightarrow> nextEdges S (push_edge e st)"
  by (rule nextEdges_frame) auto



lemma placedAt_mono:
  "placedAt a x y st \<Longrightarrow> set (nodes st) \<subseteq> set (nodes st') \<Longrightarrow>
   processedStates st \<subseteq> processedStates st' \<Longrightarrow> placedAt a x y st'"
  unfolding placedAt_def by blast













section \<open>Two branches that rejoin\<close>

lemma walkBranch_last:
  "\<not> truthy (Next B) \<Longrightarrow> walkBranch bs n i bx B prev y st = Some (prev, y, st)"
  by (subst walkBranch.simps) simp

lemma walkBranch_step:
  "Next A = Some b \<Longrightarrow> b \<noteq> [] \<Longrightarrow> getProp bs b = Some B \<Longrightarrow>
   walkBranch bs n i bx A prev y st
     = walkBranch bs n i bx B (branchId n i b) (y + VERTICAL_SPACING)
         (set_position (branchId n i b) (JPoint bx y)
            (push_edge (branchStepEdge prev (branchId n i b))
               (push_node (branchNode (branchId n i b) b bx y B) st)))"
  by (subst walkBranch.simps) (simp add: truthy_def)

lemma processBranch_chain2:
  assumes "a \<noteq> []" "b \<noteq> []" "a \<noteq> b" "Next A = Some b" "\<not> truthy (Next B)"
  shows "processBranch n sx ny i (chain2 a A b B) (m, st)
     = Some (max m (ny + VERTICAL_SPACING + VERTICAL_SPACING),
             branchTrace n (sx + int i * PARALLEL_BRANCH_SPACING) ny i a A b B st)"
proof -
  have ga: "getProp [(a, A), (b, B)] a = Some A" and gb: "getProp [(a, A), (b, B)] b = Some B"
    using assms(3) by (simp_all add: getProp_def)
  show ?thesis
    unfolding processBranch_def chain2_def branchTrace_def
    by (simp add: ga gb truthy_def assms(1) walkBranch_step[OF assms(4) assms(2) gb]
        walkBranch_last[OF assms(5)])
qed

lemma string_of_nat_01: "string_of_nat 0 = ''0''" "string_of_nat (Suc 0) = ''1''"
  by (simp_all add: string_of_nat.simps)

lemma branchTrace_fields [simp]:
  "nodes (branchTrace n bx ny i a A b B st)
     = nodes st @ [branchNode (branchId n i a) a bx ny A,
                   branchNode (branchId n i b) b bx (ny + VERTICAL_SPACING) B]"
  "edges (branchTrace n bx ny i a A b B st)
     = edges st @ [branchEdge n (branchId n i a),
                   branchStepEdge (branchId n i a) (branchId n i b)]"
  "processedStates (branchTrace n bx ny i a A b B st) = processedStates st"
  "nodePositions (branchTrace n bx ny i a A b B st) (n @ ''_branch_'' @ string_of_nat i @ ''_end'')
     = Some (JString (branchId n i b))"
  by (simp_all add: branchTrace_def)

lemma branchTrace_other_end:
  "string_of_nat i \<noteq> string_of_nat j \<Longrightarrow> length (string_of_nat i) = length (string_of_nat j) \<Longrightarrow>
   nodePositions (branchTrace n bx ny i a A b B st) (n @ ''_branch_'' @ string_of_nat j @ ''_end'')
     = nodePositions st (n @ ''_branch_'' @ string_of_nat j @ ''_end'')"
  by (auto simp: branchTrace_def branchId_def)

lemma rejoin_layout:
  assumes names: "p \<noteq> []" "s \<noteq> []" "p \<noteq> s"
    and P: "Type P = Some ''Parallel''" "Next P = Some s"
      "Branches P = Some [chain2 a1 A1 b1 B1, chain2 a2 A2 b2 B2]"
    and c1: "a1 \<noteq> []" "b1 \<noteq> []" "a1 \<noteq> b1" "Next A1 = Some b1" "\<not> truthy (Next B1)"
    and c2: "a2 \<noteq> []" "b2 \<noteq> []" "a2 \<noteq> b2" "Next A2 = Some b2" "\<not> truthy (Next B2)"
    and S: "isRegular S" "\<not> truthy (Next S)" "Catch S = None"
  shows "\<exists>g. layoutDefinition (rejoinDefinition p P s S) = Some g
    \<and> map node_id (nodes g)
        = [''__START__'', p, branchId p 0 a1, branchId p 0 b1, branchId p 1 a2, branchId p 1 b2, s]
          @ (if End S then [''__END_'' @ s @ ''__''] else [])
    \<and> map (\<lambda>e. (source e, target e)) (edges g)
        = [(JString ''__START__'', p),
           (JString p, branchId p 0 a1), (JString (branchId p 0 a1), branchId p 0 b1),
           (JString p, branchId p 1 a2), (JString (branchId p 1 a2), branchId p 1 b2),
           (JString (branchId p 0 b1), s), (JString (branchId p 1 b2), s)]
          @ (if End S then [(JString s, ''__END_'' @ s @ ''__'')] else [])"
proof -
  let ?S = "[(p, P), (s, S)]"
  let ?bs = "[chain2 a1 A1 b1 B1, chain2 a2 A2 b2 B2]"
  let ?ny = "0 + VERTICAL_SPACING + VERTICAL_SPACING"
  let ?sx = "parallelStartX 0 ?bs"
  define v where "v = visitState p 0 (0 + VERTICAL_SPACING) P (initialState p)"
  define t1 where "t1 = branchTrace p (?sx + int 0 * PARALLEL_BRANCH_SPACING) ?ny 0 a1 A1 b1 B1 v"
  define t2 where "t2 = branchTrace p (?sx + int (Suc 0) * PARALLEL_BRANCH_SPACING) ?ny (Suc 0) a2 A2 b2 B2 t1"
  define c where "c = push_edge (rejoinEdge (JString (branchId p (Suc 0) b2)) s)
                        (push_edge (rejoinEdge (JString (branchId p 0 b1)) s) t2)"
  define m where "m = max (max ?ny (?ny + VERTICAL_SPACING + VERTICAL_SPACING))
                          (?ny + VERTICAL_SPACING + VERTICAL_SPACING)"
  have gp: "getProp ?S p = Some P" and gs: "getProp ?S s = Some S"
    using names(3) by (simp_all add: getProp_def)
  have pb: "processBranches p ?sx ?ny 0 ?bs (?ny, v) = Some (m, t2)"
    by (simp add: processBranch_chain2[OF c1] processBranch_chain2[OF c2] t1_def t2_def m_def)
  have e0: "nodePositions t2 (p @ ''_branch_'' @ string_of_nat 0 @ ''_end'')
              = Some (JString (branchId p 0 b1))"
  proof -
    have "nodePositions t1 (p @ ''_branch_'' @ string_of_nat 0 @ ''_end'')
            = Some (JString (branchId p 0 b1))"
      unfolding t1_def by (rule branchTrace_fields(4))
    then show ?thesis
      unfolding t2_def by (subst branchTrace_other_end) (simp_all add: string_of_nat_01)
  qed
  have e1: "nodePositions t2 (p @ ''_branch_'' @ string_of_nat (Suc 0) @ ''_end'')
              = Some (JString (branchId p (Suc 0) b2))"
    unfolding t2_def by (rule branchTrace_fields(4))
  have cb: "connectBranchEnds p s 0 ?bs t2 = c"
    using e0 e1 by (simp add: c_def branchId_def)
  have pc: "processedStates c = {p}"
    by (simp add: c_def t2_def t1_def v_def initialState_def)
  have ps: "processState ?S s 0 m c
      = Some (finishState s 0 S (m + VERTICAL_SPACING, visitState s 0 m S c))"
    using S names(3)
    by (subst processState.simps)
       (auto simp: gs pc Let_def isRegular_def isParallel_def isChoice_def catchPhase_def)
  have np: "p \<notin> processedStates (initialState p)" by (simp add: initialState_def)
  have pp: "processState ?S p 0 (0 + VERTICAL_SPACING) (initialState p)
      = Some (finishState s 0 S (m + VERTICAL_SPACING, visitState s 0 m S c))"
    using pb cb ps np unfolding v_def
    by (subst processState.simps)
       (simp add: gp P Let_def names truthy_def del: processBranches.simps connectBranchEnds.simps)
  define fin where "fin = snd (finishState s 0 S (m + VERTICAL_SPACING, visitState s 0 m S c))"
  have ld: "layoutDefinition (rejoinDefinition p P s S)
      = Some \<lparr>nodes = nodes fin, edges = edges fin\<rparr>"
    using pp names
    by (simp add: layoutDefinition_def rejoinDefinition_def truthy_def fin_def split: prod.splits)
  have n: "map node_id (nodes fin)
        = [''__START__'', p, branchId p 0 a1, branchId p 0 b1, branchId p 1 a2, branchId p 1 b2, s]
          @ (if End S then [''__END_'' @ s @ ''__''] else [])"
    by (simp add: fin_def finishState_fields c_def t2_def t1_def v_def initialState_def)
  have e: "map (\<lambda>e. (source e, target e)) (edges fin)
        = [(JString ''__START__'', p),
           (JString p, branchId p 0 a1), (JString (branchId p 0 a1), branchId p 0 b1),
           (JString p, branchId p 1 a2), (JString (branchId p 1 a2), branchId p 1 b2),
           (JString (branchId p 0 b1), s), (JString (branchId p 1 b2), s)]
          @ (if End S then [(JString s, ''__END_'' @ s @ ''__'')] else [])"
    by (simp add: fin_def finishState_fields c_def t2_def t1_def v_def initialState_def)
  show ?thesis using ld n e by simp
qed

lemma count_ids:
  "length (filter (\<lambda>n. node_id n = s) ns) = length (filter (\<lambda>x. x = s) (map node_id ns))"
  by (induction ns) auto

lemma incoming_sources:
  "map source (filter (\<lambda>e. target e = s) es)
     = map fst (filter (\<lambda>x. snd x = s) (map (\<lambda>e. (source e, target e)) es))"
  by (induction es) auto

lemma not_own_marker: "s \<noteq> ''__END_'' @ s @ ''__''"
proof
  assume "s = ''__END_'' @ s @ ''__''"
  then have "length s = length (''__END_'' @ s @ ''__'')" by simp
  then show False by simp
qed

lemma count_targets:
  "length (filter (\<lambda>e. target e = s) es)
     = length (filter (\<lambda>x. snd x = s) (map (\<lambda>e. (source e, target e)) es))"
  by (induction es) auto

text \<open>
  C6, as stated, fails when the successor carries a name that the engine also gives to
  a branch node: node ids are made by concatenation and nothing keeps them apart from
  state names. Two nodes then have the successor's id, and three edges lead to it: the two
  from the branch ends and the one from the Parallel state to the first node of branch 0.
\<close>

theorem parallel_rejoin_counterexample:
  "(case parseStateMachine (\<lambda>s. None) (Object rejoinCollision) of
      Some (Inr g) \<Rightarrow>
        map node_id (nodes g)
          = [''__START__'', ''P'', ''P_branch_0_A1'', ''P_branch_0_B1'', ''P_branch_1_A2'',
             ''P_branch_1_B2'', ''P_branch_0_A1'', ''__END_P_branch_0_A1__'']
        \<and> length (filter (\<lambda>n. node_id n = ''P_branch_0_A1'') (nodes g)) = 2
        \<and> map source (filter (\<lambda>e. target e = ''P_branch_0_A1'') (edges g))
            = [JString ''P'', JString ''P_branch_0_B1'', JString ''P_branch_1_B2'']
    | _ \<Rightarrow> False)"
proof -
  let ?A1 = "StateSpec (Some ''Task'') (Some ''B1'') False None None None None"
  let ?B = "StateSpec (Some ''Task'') None True None None None None"
  let ?A2 = "StateSpec (Some ''Task'') (Some ''B2'') False None None None None"
  let ?S = "StateSpec (Some ''Pass'') None True None None None None"
  let ?P = "StateSpec (Some ''Parallel'') (Some ''P_branch_0_A1'') False None None None
        (Some [chain2 ''A1'' ?A1 ''B1'' ?B, chain2 ''A2'' ?A2 ''B2'' ?B])"
  have "\<exists>g. layoutDefinition (rejoinDefinition ''P'' ?P ''P_branch_0_A1'' ?S) = Some g
    \<and> map node_id (nodes g)
        = [''__START__'', ''P'', branchId ''P'' 0 ''A1'', branchId ''P'' 0 ''B1'',
           branchId ''P'' 1 ''A2'', branchId ''P'' 1 ''B2'', ''P_branch_0_A1'']
          @ (if End ?S then [''__END_'' @ ''P_branch_0_A1'' @ ''__''] else [])
    \<and> map (\<lambda>e. (source e, target e)) (edges g)
        = [(JString ''__START__'', ''P''),
           (JString ''P'', branchId ''P'' 0 ''A1''),
           (JString (branchId ''P'' 0 ''A1''), branchId ''P'' 0 ''B1''),
           (JString ''P'', branchId ''P'' 1 ''A2''),
           (JString (branchId ''P'' 1 ''A2''), branchId ''P'' 1 ''B2''),
           (JString (branchId ''P'' 0 ''B1''), ''P_branch_0_A1''),
           (JString (branchId ''P'' 1 ''B2''), ''P_branch_0_A1'')]
          @ (if End ?S then [(JString ''P_branch_0_A1'', ''__END_'' @ ''P_branch_0_A1'' @ ''__'')]
             else [])"
    by (rule rejoin_layout[where P = ?P and S = ?S and ?A1.0 = ?A1 and ?B1.0 = ?B
          and ?A2.0 = ?A2 and ?B2.0 = ?B])
       (simp_all add: truthy_def isRegular_def isParallel_def isChoice_def)
  then obtain g where g: "layoutDefinition rejoinCollision = Some g"
    and n: "map node_id (nodes g)
        = [''__START__'', ''P'', ''P_branch_0_A1'', ''P_branch_0_B1'', ''P_branch_1_A2'',
             ''P_branch_1_B2'', ''P_branch_0_A1'', ''__END_P_branch_0_A1__'']"
    and e: "map (\<lambda>e. (source e, target e)) (edges g)
        = [(JString ''__START__'', ''P''),
           (JString ''P'', ''P_branch_0_A1''),
           (JString ''P_branch_0_A1'', ''P_branch_0_B1''),
           (JString ''P'', ''P_branch_1_A2''),
           (JString ''P_branch_1_A2'', ''P_branch_1_B2''),
           (JString ''P_branch_0_B1'', ''P_branch_0_A1''),
           (JString ''P_branch_1_B2'', ''P_branch_0_A1''),
           (JString ''P_branch_0_A1'', ''__END_P_branch_0_A1__'')]"
    unfolding rejoinCollision_def
    by (elim exE conjE) (simp add: branchId_def string_of_nat_01)
  have 1: "length (filter (\<lambda>n. node_id n = ''P_branch_0_A1'') (nodes g)) = 2"
    unfolding count_ids n by simp
  have 2: "map source (filter (\<lambda>e. target e = ''P_branch_0_A1'') (edges g))
            = [JString ''P'', JString ''P_branch_0_B1'', JString ''P_branch_1_B2'']"
    unfolding incoming_sources e by simp
  show ?thesis
    using g n 1 2 by (simp add: parseStateMachine_def layoutValue_def)
qed

text \<open>
  C6, amended: a definition made of a Parallel state \<open>p\<close> with two branches, each a chain of two
  states (\<open>a1\<close> then \<open>b1\<close>, \<open>a2\<close> then \<open>b2\<close>), and of the state \<open>s\<close> that \<open>p\<close> names as
  \<^verbatim>\<open>Next\<close>, a state without \<^verbatim>\<open>Next\<close> and catch rules. The names are not empty, and \<open>s\<close> is
  not an id that the engine gives to another node. The layout returns; \<open>s\<close> is the id of
  exactly one node; and exactly two edges lead to \<open>s\<close>, the first from the node of \<open>b1\<close>
  in branch 0 and the second from the node of \<open>b2\<close> in branch 1.
\<close>

theorem parallel_rejoin:
  assumes "p \<noteq> []" "s \<noteq> []" "p \<noteq> s"
    and "Type P = Some ''Parallel''" "Next P = Some s"
      "Branches P = Some [chain2 a1 A1 b1 B1, chain2 a2 A2 b2 B2]"
    and "a1 \<noteq> []" "b1 \<noteq> []" "a1 \<noteq> b1" "Next A1 = Some b1" "\<not> truthy (Next B1)"
    and "a2 \<noteq> []" "b2 \<noteq> []" "a2 \<noteq> b2" "Next A2 = Some b2" "\<not> truthy (Next B2)"
    and "isRegular S" "\<not> truthy (Next S)" "Catch S = None"
    and "s \<notin> {''__START__'', branchId p 0 a1, branchId p 0 b1, branchId p 1 a2, branchId p 1 b2}"
  shows "\<exists>g. layoutDefinition (rejoinDefinition p P s S) = Some g
    \<and> length (filter (\<lambda>n. node_id n = s) (nodes g)) = 1
    \<and> map source (filter (\<lambda>e. target e = s) (edges g))
        = [JString (branchId p 0 b1), JString (branchId p 1 b2)]"
proof -
  from rejoin_layout[OF assms(1-19)] obtain g where
    g: "layoutDefinition (rejoinDefinition p P s S) = Some g"
    and n: "map node_id (nodes g)
        = [''__START__'', p, branchId p 0 a1, branchId p 0 b1, branchId p 1 a2, branchId p 1 b2, s]
          @ (if End S then [''__END_'' @ s @ ''__''] else [])"
    and e: "map (\<lambda>e. (source e, target e)) (edges g)
        = [(JString ''__START__'', p),
           (JString p, branchId p 0 a1), (JString (branchId p 0 a1), branchId p 0 b1),
           (JString p, branchId p 1 a2), (JString (branchId p 1 a2), branchId p 1 b2),
           (JString (branchId p 0 b1), s), (JString (branchId p 1 b2), s)]
          @ (if End S then [(JString s, ''__END_'' @ s @ ''__'')] else [])"
    by blast
  have h: "''__START__'' \<noteq> s" "p \<noteq> s" "branchId p 0 a1 \<noteq> s" "branchId p 0 b1 \<noteq> s"
    "branchId p 1 a2 \<noteq> s" "branchId p 1 b2 \<noteq> s" "''__END_'' @ s @ ''__'' \<noteq> s"
    using assms(3,20) not_own_marker[of s] by auto
  have "length (filter (\<lambda>n. node_id n = s) (nodes g)) = 1"
    unfolding count_ids n using h by simp
  moreover have "map source (filter (\<lambda>e. target e = s) (edges g))
        = [JString (branchId p 0 b1), JString (branchId p 1 b2)]"
    unfolding incoming_sources e using h by simp
  ultimately show ?thesis using g by (intro exI[of _ g]) simp
qed

theorem parallel_rejoin_witness:
  "layoutDefinition rejoinExample \<noteq> None
   \<and> length (filter (\<lambda>n. node_id n = ''S'') (nodes (the (layoutDefinition rejoinExample)))) = 1
   \<and> map source (filter (\<lambda>e. target e = ''S'') (edges (the (layoutDefinition rejoinExample))))
       = [JString ''P_branch_0_B1'', JString ''P_branch_1_B2'']"
proof -
  let ?A1 = "StateSpec (Some ''Task'') (Some ''B1'') False None None None None"
  let ?B = "StateSpec (Some ''Task'') None True None None None None"
  let ?A2 = "StateSpec (Some ''Task'') (Some ''B2'') False None None None None"
  let ?S = "StateSpec (Some ''Pass'') None True None None None None"
  let ?P = "StateSpec (Some ''Parallel'') (Some ''S'') False None None None
        (Some [chain2 ''A1'' ?A1 ''B1'' ?B, chain2 ''A2'' ?A2 ''B2'' ?B])"
  have hyg: "''S'' \<notin> {''__START__'', branchId ''P'' 0 ''A1'', branchId ''P'' 0 ''B1'',
      branchId ''P'' 1 ''A2'', branchId ''P'' 1 ''B2''}"
    by (simp add: branchId_def)
  have "\<exists>g. layoutDefinition (rejoinDefinition ''P'' ?P ''S'' ?S) = Some g
    \<and> length (filter (\<lambda>n. node_id n = ''S'') (nodes g)) = 1
    \<and> map source (filter (\<lambda>e. target e = ''S'') (edges g))
        = [JString (branchId ''P'' 0 ''B1''), JString (branchId ''P'' 1 ''B2'')]"
    by (rule parallel_rejoin[where P = ?P and S = ?S and ?A1.0 = ?A1 and ?B1.0 = ?B
          and ?A2.0 = ?A2 and ?B2.0 = ?B, OF _ _ _ _ _ _ _ _ _ _ _ _ _ _ _ _ _ _ _ hyg])
       (simp_all add: truthy_def isRegular_def isParallel_def isChoice_def)
  then obtain g where g: "layoutDefinition rejoinExample = Some g"
    "length (filter (\<lambda>n. node_id n = ''S'') (nodes g)) = 1"
    "map source (filter (\<lambda>e. target e = ''S'') (edges g))
        = [JString (branchId ''P'' 0 ''B1''), JString (branchId ''P'' 1 ''B2'')]"
    unfolding rejoinExample_def by (elim exE conjE) simp
  have b: "branchId ''P'' 0 ''B1'' = ''P_branch_0_B1''"
    "branchId ''P'' (Suc 0) ''B2'' = ''P_branch_1_B2''"
    by (simp_all add: branchId_def string_of_nat_01)
  show ?thesis using g by (simp add: b)
qed

end
